theory Spec2Isabelle
  imports Main "HOL-Library.Char_ord" "HOL-Library.List_Lexorder"
    "HOL-Library.Product_Lexorder"
begin

section \<open>Tables\<close>

text \<open>
  Both scripts hold a CSV file as a pandas DataFrame. A cell is text or the missing value
  (NaN, None and NaT are all the missing value); a row gives a cell for every column
  name; a frame is its ordered column names and its rows in order. Column names are
  distinct, as \<open>read_csv\<close> makes them. Text is compared the way Python compares \<open>str\<close>:
  character by character, a proper prefix first. Header text is taken to be ASCII. The
  sorter reads every cell as text (\<open>dtype=str\<close>); the updater lets \<open>read_csv\<close> infer the
  types, and a cell is kept here as the text it is written as, which is how the date
  column of a file of draws is read.
\<close>

type_synonym cell = "string option"

type_synonym row = "string \<Rightarrow> cell"

record dataframe =
  columns :: "string list"
  rows :: "row list"

definition column :: "dataframe \<Rightarrow> string \<Rightarrow> cell list" where
  \<comment> \<open>\<open>df[c]\<close>\<close>
  "column df c = map (\<lambda>r. r c) (rows df)"

definition set_column :: "dataframe \<Rightarrow> string \<Rightarrow> cell list \<Rightarrow> dataframe" where
  \<comment> \<open>\<open>df[c] = values\<close> for a column \<open>c\<close> of the frame and one value per row\<close>
  "set_column df c vs = df\<lparr>rows := map (\<lambda>(r, v). r(c := v)) (zip (rows df) vs)\<rparr>"

definition notna :: "'a option \<Rightarrow> bool" where
  "notna c = (case c of None \<Rightarrow> False | Some _ \<Rightarrow> True)"

section \<open>Calendar dates and their text\<close>

text \<open>
  A \<open>datetime.date\<close> is a year, a month and a day, ordered in that order. Python builds
  only the dates that \<open>valid_date\<close> admits, and prints one as \<open>"%04d-%02d-%02d"\<close>.
\<close>

type_synonym date = "nat \<times> nat \<times> nat"

definition is_leap :: "nat \<Rightarrow> bool" where
  "is_leap y = (y mod 4 = 0 \<and> (y mod 100 \<noteq> 0 \<or> y mod 400 = 0))"

definition days_in_month :: "nat \<Rightarrow> nat \<Rightarrow> nat" where
  "days_in_month y m =
     (if m = 2 then (if is_leap y then 29 else 28)
      else if m = 4 \<or> m = 6 \<or> m = 9 \<or> m = 11 then 30 else 31)"

definition valid_date :: "date \<Rightarrow> bool" where
  "valid_date dt = (case dt of (y, m, d) \<Rightarrow>
     1 \<le> y \<and> y \<le> 9999 \<and> 1 \<le> m \<and> m \<le> 12 \<and> 1 \<le> d \<and> d \<le> days_in_month y m)"

definition digit_char :: "nat \<Rightarrow> char" where
  "digit_char n = char_of (48 + n)"

function str_nat :: "nat \<Rightarrow> string" where
  "str_nat n = (if n < 10 then [digit_char n] else str_nat (n div 10) @ [digit_char (n mod 10)])"
  by pat_completeness auto
termination
  by (relation "measure id") auto

declare str_nat.simps [simp del]

definition zfill :: "nat \<Rightarrow> string \<Rightarrow> string" where
  "zfill w s = replicate (w - length s) (CHR ''0'') @ s"

definition str_date :: "date \<Rightarrow> string" where
  "str_date dt = (case dt of (y, m, d) \<Rightarrow>
     zfill 4 (str_nat y) @ ''-'' @ zfill 2 (str_nat m) @ ''-'' @ zfill 2 (str_nat d))"

text \<open>
  \<open>.astype(str)\<close> on a column of dates gives a date its text. What it gives the missing
  date NaT is not the same in every pandas, and the scripts name no version of pandas: it
  is the text "NaT" before pandas 3 and the missing value from pandas 3 on, which
  \<open>to_csv\<close> writes as an empty field and \<open>sort_values\<close> puts last. It is the parameter
  \<open>na\<close>: \<open>Some ''NaT''\<close> for the one, \<open>None\<close> for the other.
\<close>

definition str_cell :: "cell \<Rightarrow> date option \<Rightarrow> cell" where
  "str_cell na p = (case p of None \<Rightarrow> na | Some d \<Rightarrow> Some (str_date d))"

text \<open>
  Canonical text is ten characters \<open>YYYY-MM-DD\<close> that name a date of the calendar;
  \<open>read_iso\<close> is the date such a text names.
\<close>

definition is_digit :: "char \<Rightarrow> bool" where
  "is_digit c = (CHR ''0'' \<le> c \<and> c \<le> CHR ''9'')"

definition digit_val :: "char \<Rightarrow> nat" where
  "digit_val c = of_char c - 48"

definition nat_of_digits :: "string \<Rightarrow> nat" where
  "nat_of_digits s = foldl (\<lambda>a c. 10 * a + digit_val c) 0 s"

definition read_iso :: "string \<Rightarrow> date option" where
  "read_iso s =
     (if length s = 10 \<and> list_all is_digit (take 4 s) \<and> s ! 4 = CHR ''-''
         \<and> list_all is_digit (take 2 (drop 5 s)) \<and> s ! 7 = CHR ''-''
         \<and> list_all is_digit (drop 8 s)
      then (let dt = (nat_of_digits (take 4 s), nat_of_digits (take 2 (drop 5 s)),
                      nat_of_digits (drop 8 s))
            in if valid_date dt then Some dt else None)
      else None)"

definition is_canonical :: "string \<Rightarrow> bool" where
  "is_canonical s = notna (read_iso s)"

text \<open>
  The other layout of the data set, \<open>MM/DD/YYYY\<close>, read the same way; \<open>read_date\<close> reads
  a text in either layout and nothing else.
\<close>

definition read_us :: "string \<Rightarrow> date option" where
  "read_us s =
     (if length s = 10 \<and> list_all is_digit (take 2 s) \<and> s ! 2 = CHR ''/''
         \<and> list_all is_digit (take 2 (drop 3 s)) \<and> s ! 5 = CHR ''/''
         \<and> list_all is_digit (drop 6 s)
      then (let dt = (nat_of_digits (drop 6 s), nat_of_digits (take 2 s),
                      nat_of_digits (take 2 (drop 3 s)))
            in if valid_date dt then Some dt else None)
      else None)"

definition read_date :: "string \<Rightarrow> date option" where
  "read_date s = (case read_iso s of Some d \<Rightarrow> Some d | None \<Rightarrow> read_us s)"

definition canonical_date :: "cell \<Rightarrow> date option" where
  \<comment> \<open>the calendar date that a cell in either layout stands for\<close>
  "canonical_date c = (case c of None \<Rightarrow> None | Some s \<Rightarrow> read_date s)"

definition canonical_cell :: "cell \<Rightarrow> bool" where
  "canonical_cell c = (case c of None \<Rightarrow> False | Some s \<Rightarrow> is_canonical s)"

section \<open>The pandas operations the scripts call\<close>

text \<open>
  \<open>pd.to_datetime(column, errors="coerce")\<close> followed by \<open>.dt.date\<close>: every cell becomes
  a date or NaT, and never an error. How pandas reads a text is not code of the scripts, so
  it is a parameter: the date, if any, that pandas reads a text as, given the column the
  text stands in (pandas may settle on one layout for a whole column). A missing cell is
  NaT. With \<open>utc=True\<close> the date is the one of the instant in UTC.
\<close>

type_synonym parser = "cell list \<Rightarrow> string \<Rightarrow> date option"

definition to_datetime :: "parser \<Rightarrow> cell list \<Rightarrow> date option list" where
  "to_datetime parse col = map (\<lambda>c. case c of None \<Rightarrow> None | Some s \<Rightarrow> parse col s) col"

text \<open>
  The reader of the examples. pandas 2 and pandas 3 take the layout of the first cell of
  the column that is not missing and read the whole column in this layout, so that a cell
  in another layout is NaT; where the first cell is in neither layout, every cell is read
  on its own.
\<close>

definition first_text :: "cell list \<Rightarrow> cell" where
  "first_text col = (case filter notna col of [] \<Rightarrow> None | c # _ \<Rightarrow> c)"

definition first_layout :: parser where
  "first_layout col s =
     (case first_text col of
        None \<Rightarrow> read_date s
      | Some f \<Rightarrow>
          if notna (read_iso f) then read_iso s
          else if notna (read_us f) then read_us s
          else read_date s)"

text \<open>
  \<open>drop_duplicates(subset=[k], keep="last")\<close>: a row stays exactly when no later row has
  the same key; the rows that stay keep their order.
\<close>

fun drop_duplicates_last :: "('a \<Rightarrow> 'k) \<Rightarrow> 'a list \<Rightarrow> 'a list" where
  "drop_duplicates_last k [] = []"
| "drop_duplicates_last k (x # xs) =
     (if k x \<in> set (map k xs) then drop_duplicates_last k xs
      else x # drop_duplicates_last k xs)"

text \<open>
  \<open>sort_values(k)\<close> sorts through \<open>nargsort\<close>: the rows whose key is missing are set
  aside and put last, the others are sorted by key. For a descending sort \<open>nargsort\<close>
  reverses the rows, sorts them ascending with the stable sort, and reverses the result.
  \<open>sort_key\<close> is a stable sort, and a stable sort has one possible result. The default
  sort of \<open>sort_values\<close> is not stable; it has the same result wherever no two keys are
  equal, and rows fetched with equal dates are taken to stay in the order of the response.
\<close>

definition sort_values :: "('a \<Rightarrow> 'k::linorder option) \<Rightarrow> 'a list \<Rightarrow> 'a list" where
  "sort_values k xs =
     sort_key (\<lambda>r. the (k r)) (filter (\<lambda>r. notna (k r)) xs) @ filter (\<lambda>r. \<not> notna (k r)) xs"

definition sort_values_desc :: "('a \<Rightarrow> 'k::linorder option) \<Rightarrow> 'a list \<Rightarrow> 'a list" where
  "sort_values_desc k xs =
     rev (sort_key (\<lambda>r. the (k r)) (rev (filter (\<lambda>r. notna (k r)) xs)))
       @ filter (\<lambda>r. \<not> notna (k r)) xs"

text \<open>The order \<open>sort_values\<close> puts keys in: ascending, the missing value last.\<close>

fun cell_le :: "'k::linorder option \<Rightarrow> 'k option \<Rightarrow> bool" where
  "cell_le (Some s) (Some t) = (s \<le> t)"
| "cell_le _ None = True"
| "cell_le None (Some t) = False"

text \<open>The order of a descending \<open>sort_values\<close>: descending, the missing value last.\<close>

fun cell_ge :: "'k::linorder option \<Rightarrow> 'k option \<Rightarrow> bool" where
  "cell_ge (Some s) (Some t) = (t \<le> s)"
| "cell_ge _ None = True"
| "cell_ge None (Some t) = False"

section \<open>Messages, files and the outcome of a run\<close>

datatype message =
    Skip_not_found string
  | Skip_no_date_column string "string list"
  | Sorted_by string string
  | Csv_not_found string
  | No_draw_date_column
  | Last_date_in_csv string
  | Up_to_date
  | Appending nat
  | Updated_csv_saved string

record world =
  files :: "string \<rightharpoonup> dataframe"
  stdout :: "message list"
  stderr :: "message list"
  requests :: "string list"

datatype outcome = Returned | Exit nat | Uncaught

definition exit_code :: "outcome \<Rightarrow> nat" where
  "exit_code out = (case out of Returned \<Rightarrow> 0 | Exit n \<Rightarrow> n | Uncaught \<Rightarrow> 1)"

definition print :: "message \<Rightarrow> world \<Rightarrow> world" where
  "print m w = w\<lparr>stdout := stdout w @ [m]\<rparr>"

definition eprint :: "message \<Rightarrow> world \<Rightarrow> world" where
  "eprint m w = w\<lparr>stderr := stderr w @ [m]\<rparr>"

definition to_csv :: "string \<Rightarrow> dataframe \<Rightarrow> world \<Rightarrow> world" where
  "to_csv path df w = w\<lparr>files := (files w)(path \<mapsto> df)\<rparr>"

section \<open>The sorter (sort\_powerball.py)\<close>

definition DATE_CANDIDATES :: "string set" where
  "DATE_CANDIDATES =
     {''drawdate'', ''draw_date'', ''date'', ''drawingdate'', ''draw_dt'', ''draw''}"

definition lower_char :: "char \<Rightarrow> char" where
  "lower_char c =
     (if CHR ''A'' \<le> c \<and> c \<le> CHR ''Z'' then char_of (of_char c + (32::nat)) else c)"

definition keep_char :: "char \<Rightarrow> bool" where
  \<comment> \<open>the characters that \<open>[^a-z0-9]\<close> does not match\<close>
  "keep_char c = ((CHR ''a'' \<le> c \<and> c \<le> CHR ''z'') \<or> (CHR ''0'' \<le> c \<and> c \<le> CHR ''9''))"

definition norm :: "string \<Rightarrow> string" where
  \<comment> \<open>\<open>re.sub(r"[^a-z0-9]", "", s.lower())\<close>\<close>
  "norm s = filter keep_char (map lower_char s)"

fun name_match :: "string list \<Rightarrow> string option" where
  \<comment> \<open>the first loop of \<open>guess_date_col\<close>\<close>
  "name_match [] = None"
| "name_match (c # cs) = (if norm c \<in> DATE_CANDIDATES then Some c else name_match cs)"

definition hits :: "parser \<Rightarrow> dataframe \<Rightarrow> string \<Rightarrow> nat" where
  \<comment> \<open>\<open>pd.to_datetime(df[c], errors="coerce", utc=True).notna().sum()\<close>\<close>
  "hits parse df c = length (filter notna (to_datetime parse (column df c)))"

fun content_match ::
  "parser \<Rightarrow> dataframe \<Rightarrow> string list \<Rightarrow> string option \<times> int \<Rightarrow> string option \<times> int" where
  \<comment> \<open>the second loop of \<open>guess_date_col\<close>, on \<open>(best_col, best_hits)\<close>\<close>
  "content_match parse df [] best = best"
| "content_match parse df (c # cs) (best_col, best_hits) =
     (if int (hits parse df c) > best_hits \<and> hits parse df c > 0
      then content_match parse df cs (Some c, int (hits parse df c))
      else content_match parse df cs (best_col, best_hits))"

definition guess_date_col :: "parser \<Rightarrow> dataframe \<Rightarrow> string option" where
  "guess_date_col parse df =
     (case name_match (columns df) of
        Some c \<Rightarrow> Some c
      | None \<Rightarrow> fst (content_match parse df (columns df) (None, - 1)))"

definition parsed_date :: "parser \<Rightarrow> dataframe \<Rightarrow> string \<Rightarrow> row \<Rightarrow> date option" where
  \<comment> \<open>what \<open>pd.to_datetime(df[col], errors="coerce")\<close> holds for a row, as a date\<close>
  "parsed_date parse df col r =
     (case r col of None \<Rightarrow> None | Some s \<Rightarrow> parse (column df col) s)"

definition date_key :: "parser \<Rightarrow> cell \<Rightarrow> dataframe \<Rightarrow> string \<Rightarrow> row \<Rightarrow> cell" where
  \<comment> \<open>the same after \<open>.astype(str)\<close>: the cell that line 40 writes, and line 43 sorts by\<close>
  "date_key parse na df col r = str_cell na (parsed_date parse df col r)"

definition normalize_column :: "parser \<Rightarrow> cell \<Rightarrow> dataframe \<Rightarrow> string \<Rightarrow> dataframe" where
  \<comment> \<open>\<open>df[col] = pd.to_datetime(df[col], errors="coerce", utc=True).dt.date.astype(str)\<close>\<close>
  "normalize_column parse na df col =
     set_column df col (map (str_cell na) (to_datetime parse (column df col)))"

definition sort_file :: "parser \<Rightarrow> cell \<Rightarrow> string \<Rightarrow> world \<Rightarrow> world" where
  "sort_file parse na csv_path w =
     (case files w csv_path of
        None \<Rightarrow> print (Skip_not_found csv_path) w
      | Some df \<Rightarrow>
          (case guess_date_col parse df of
             None \<Rightarrow> print (Skip_no_date_column csv_path (columns df)) w
           | Some col \<Rightarrow>
               if col = [] then print (Skip_no_date_column csv_path (columns df)) w
               else
                 let df1 = normalize_column parse na df col;
                     df2 = df1\<lparr>rows := sort_values_desc (\<lambda>r. r col) (rows df1)\<rparr>
                 in print (Sorted_by csv_path col) (to_csv csv_path df2 w)))"

fun message_file :: "message \<Rightarrow> string" where
  \<comment> \<open>the file that a line printed by the sorter is about\<close>
  "message_file (Skip_not_found p) = p"
| "message_file (Skip_no_date_column p hs) = p"
| "message_file (Sorted_by p c) = p"
| "message_file m = []"

definition FILES :: "string list \<Rightarrow> string list" where
  \<comment> \<open>\<open>[Path(p) for p in sys.argv[1:]] or [Path("data/powerball.csv")]\<close>, from \<open>sys.argv[1:]\<close>\<close>
  "FILES args = (if args = [] then [''data/powerball.csv''] else args)"

definition sorter_main :: "parser \<Rightarrow> cell \<Rightarrow> string list \<Rightarrow> world \<Rightarrow> outcome \<times> world" where
  \<comment> \<open>\<open>sys.exit(main())\<close>: \<open>main\<close> runs \<open>sort_file\<close> on every file and returns \<open>None\<close>\<close>
  "sorter_main parse na args w = (Returned, fold (sort_file parse na) (FILES args) w)"

section \<open>The updater (powerball\_updater.py)\<close>

record 'd draw_row =
  draw_date :: 'd
  winning_numbers :: cell
  multiplier :: cell

type_synonym canonical_row = "cell draw_row"

type_synonym json = "string \<rightharpoonup> string"

text \<open>
  The HTTP collaborator: for the date of the \<open>$where\<close> filter, either an error status or a
  timeout (\<open>None\<close>: \<open>requests\<close> raises), or the records of the response.
\<close>

type_synonym api = "string \<Rightarrow> json list option"

definition truthy :: "cell \<Rightarrow> bool" where
  "truthy c = (case c of None \<Rightarrow> False | Some s \<Rightarrow> s \<noteq> [])"

fun py_or :: "cell list \<Rightarrow> cell" where
  \<comment> \<open>\<open>a or b or c\<close>: the first truthy value, or else the last value\<close>
  "py_or [] = None"
| "py_or [c] = c"
| "py_or (c # cs) = (if truthy c then c else py_or cs)"

definition split_T :: "string \<Rightarrow> string" where
  \<comment> \<open>\<open>s.split("T")[0]\<close>\<close>
  "split_T s = takeWhile (\<lambda>c. c \<noteq> CHR ''T'') s"

definition rec_of :: "json \<Rightarrow> cell draw_row" where
  \<comment> \<open>one record of \<open>recs\<close> in \<open>fetch_since\<close>\<close>
  "rec_of j =
     (let dd = py_or [j ''draw_date'', j ''drawdate'', j ''date''];
          wn = py_or [j ''winning_numbers'', j ''winningnumbers''];
          mu = py_or [j ''multiplier'', j ''power_play'', j ''powerplay'']
      in \<lparr>draw_date = (if truthy dd then map_option split_T dd else None),
          winning_numbers = wn, multiplier = mu\<rparr>)"

definition with_dates :: "'a list \<Rightarrow> 'b draw_row list \<Rightarrow> 'a draw_row list" where
  \<comment> \<open>\<open>df["Draw Date"] = values\<close>, one value per row\<close>
  "with_dates ds rs =
     map (\<lambda>(r, d). \<lparr>draw_date = d, winning_numbers = winning_numbers r,
                     multiplier = multiplier r\<rparr>) (zip rs ds)"

definition fetch_since :: "parser \<Rightarrow> api \<Rightarrow> string \<Rightarrow> (date option) draw_row list option" where
  "fetch_since parse get date_iso =
     (case get date_iso of
        None \<Rightarrow> None
      | Some data \<Rightarrow>
          if data = [] then Some []
          else
            let recs = map rec_of data;
                df_new = with_dates (to_datetime parse (map draw_date recs)) recs
            in Some (sort_values draw_date df_new))"

fun pick :: "string list \<Rightarrow> string list \<Rightarrow> string option" where
  \<comment> \<open>\<open>pick(name_options)\<close> inside \<open>main\<close>, for the columns of \<open>df\<close>\<close>
  "pick cols [] = None"
| "pick cols (n # ns) = (if n \<in> set cols then Some n else pick cols ns)"

definition last_date :: "date option list \<Rightarrow> date option" where
  \<comment> \<open>\<open>df["_parsed_draw_date"].max()\<close>: the greatest date that is not NaT, NaT if there is none\<close>
  "last_date ds =
     (case map the (filter notna ds) of [] \<Rightarrow> None | d # rest \<Rightarrow> Some (fold max rest d))"

definition last_date_iso :: "parser \<Rightarrow> dataframe \<Rightarrow> string \<Rightarrow> string" where
  "last_date_iso parse df date_col =
     (case last_date (to_datetime parse (column df date_col)) of
        None \<Rightarrow> ''2009-12-31''
      | Some d \<Rightarrow> str_date d)"

definition rename_col :: "(string \<times> string) list \<Rightarrow> string \<Rightarrow> string" where
  "rename_col m c = (case map_of m c of None \<Rightarrow> c | Some c' \<Rightarrow> c')"

definition rename :: "(string \<times> string) list \<Rightarrow> dataframe \<Rightarrow> dataframe" where
  \<comment> \<open>\<open>df.rename(columns=m)\<close>: a column is found under its new name\<close>
  "rename m df =
     \<lparr>columns = map (rename_col m) (columns df),
      rows = map (\<lambda>r c'. case find (\<lambda>c. rename_col m c = c') (columns df) of
                              None \<Rightarrow> None | Some c \<Rightarrow> r c) (rows df)\<rparr>"

definition add_missing :: "string \<Rightarrow> dataframe \<Rightarrow> dataframe" where
  \<comment> \<open>\<open>if c not in df.columns: df[c] = None\<close>\<close>
  "add_missing c df =
     (if c \<in> set (columns df) then df
      else \<lparr>columns = columns df @ [c], rows = map (\<lambda>r. r(c := None)) (rows df)\<rparr>)"

definition out_cols :: "dataframe \<Rightarrow> canonical_row list" where
  \<comment> \<open>\<open>df[["Draw Date", "Winning Numbers", "Multiplier"]]\<close>\<close>
  "out_cols df =
     map (\<lambda>r. \<lparr>draw_date = r ''Draw Date'', winning_numbers = r ''Winning Numbers'',
               multiplier = r ''Multiplier''\<rparr>) (rows df)"

definition existing_rows ::
  "dataframe \<Rightarrow> string \<Rightarrow> string option \<Rightarrow> string option \<Rightarrow> canonical_row list" where
  \<comment> \<open>\<open>df_existing[out_cols]\<close>, by the three branches on \<open>nums_col\<close> and \<open>mult_col\<close>\<close>
  "existing_rows df date_col nums_col mult_col =
     (case (nums_col, mult_col) of
        (Some n, Some m) \<Rightarrow>
          out_cols (rename [(date_col, ''Draw Date''), (n, ''Winning Numbers''),
                            (m, ''Multiplier'')] df)
      | (Some n, None) \<Rightarrow>
          out_cols (add_missing ''Multiplier''
            (rename [(date_col, ''Draw Date''), (n, ''Winning Numbers'')] df))
      | (None, _) \<Rightarrow>
          out_cols (add_missing ''Multiplier'' (add_missing ''Winning Numbers''
            (rename [(date_col, ''Draw Date'')] df))))"

definition merge :: "canonical_row list \<Rightarrow> canonical_row list \<Rightarrow> canonical_row list" where
  \<comment> \<open>\<open>pd.concat([df_existing[out_cols], df_new[out_cols]])\<close>, then
      \<open>drop_duplicates(subset=["Draw Date"], keep="last").sort_values("Draw Date")\<close>\<close>
  "merge existing new = sort_values draw_date (drop_duplicates_last draw_date (existing @ new))"

definition frame_of :: "canonical_row list \<Rightarrow> dataframe" where
  \<comment> \<open>the frame of three columns that \<open>merged.to_csv\<close> writes\<close>
  "frame_of rs =
     \<lparr>columns = [''Draw Date'', ''Winning Numbers'', ''Multiplier''],
      rows = map (\<lambda>r c. if c = ''Draw Date'' then draw_date r
                         else if c = ''Winning Numbers'' then winning_numbers r
                         else if c = ''Multiplier'' then multiplier r else None) rs\<rparr>"

definition updater_main ::
  "parser \<Rightarrow> cell \<Rightarrow> api \<Rightarrow> string \<Rightarrow> world \<Rightarrow> outcome \<times> world" where
  "updater_main parse na get csv_path w =
     (case files w csv_path of
        None \<Rightarrow> (Exit 2, eprint (Csv_not_found csv_path) w)
      | Some df \<Rightarrow>
          let date_col = pick (columns df) [''Draw Date'', ''draw_date'', ''Draw date'', ''date''];
              nums_col = pick (columns df)
                [''Winning Numbers'', ''winning_numbers'', ''Winning numbers''];
              mult_col = pick (columns df)
                [''Multiplier'', ''multiplier'', ''Power Play'', ''powerplay'', ''power_play'']
          in
          (case date_col of
             None \<Rightarrow> (Exit 3, eprint No_draw_date_column w)
           | Some dc \<Rightarrow>
               let iso = last_date_iso parse df dc;
                   w1 = print (Last_date_in_csv iso) w;
                   w2 = w1\<lparr>requests := requests w1 @ [iso]\<rparr>
               in
               (case fetch_since parse get iso of
                  None \<Rightarrow> (Uncaught, w2)
                | Some df_new \<Rightarrow>
                    if df_new = [] then (Returned, print Up_to_date w2)
                    else
                      let w3 = print (Appending (length df_new)) w2;
                          new = with_dates (map (str_cell na \<circ> draw_date) df_new) df_new;
                          merged = merge (existing_rows df dc nums_col mult_col) new
                      in (Returned,
                          print (Updated_csv_saved csv_path)
                            (to_csv csv_path (frame_of merged) w3)))))"

section \<open>Example data\<close>

text \<open>
  A file of four draws in the layout \<open>MM/DD/YYYY\<close> of the data set: the first and the
  last row are draws of the same day, and the date cell of the second row is not a date.
\<close>

definition draws_frame :: dataframe where
  "draws_frame =
     \<lparr>columns = [''Draw Date'', ''Winning Numbers''],
      rows = [map_of [(''Draw Date'', ''01/03/2024''), (''Winning Numbers'', ''10 20 30 40 50 01'')],
              map_of [(''Draw Date'', ''to be drawn''), (''Winning Numbers'', ''none'')],
              map_of [(''Draw Date'', ''01/06/2024''), (''Winning Numbers'', ''01 02 03 04 05 06'')],
              map_of [(''Draw Date'', ''01/03/2024''), (''Winning Numbers'', ''11 12 13 14 15 16'')]]\<rparr>"


definition mixed_frame :: dataframe where
  \<comment> \<open>a file whose first date is in the layout \<open>MM/DD/YYYY\<close> and whose second is canonical\<close>
  "mixed_frame =
     \<lparr>columns = [''Draw Date'', ''Winning Numbers''],
      rows = [map_of [(''Draw Date'', ''01/03/2024''), (''Winning Numbers'', ''10 20 30 40 50 01'')],
              map_of [(''Draw Date'', ''2024-01-06''), (''Winning Numbers'', ''01 02 03 04 05 06'')]]\<rparr>"

definition export_frame :: dataframe where
  \<comment> \<open>two draws as the export of the data set has them, in order of date\<close>
  "export_frame =
     \<lparr>columns = [''Draw Date'', ''Winning Numbers'', ''Multiplier''],
      rows = [map_of [(''Draw Date'', ''12/30/2023''), (''Winning Numbers'', ''10 20 30 40 50 01''),
                      (''Multiplier'', ''2'')],
              map_of [(''Draw Date'', ''01/06/2024''), (''Winning Numbers'', ''01 02 03 04 05 06''),
                      (''Multiplier'', ''3'')]]\<rparr>"

definition one_draw :: "string \<Rightarrow> api" where
  \<comment> \<open>a response with the one draw of the day \<open>d\<close>\<close>
  "one_draw d = (\<lambda>since. Some [map_of [(''draw_date'', d @ ''T00:00:00.000''),
                                          (''winning_numbers'', ''11 12 13 14 15 16''),
                                          (''multiplier'', ''2'')]])"

definition text_frame :: dataframe where
  \<comment> \<open>a file without a date in it\<close>
  "text_frame =
     \<lparr>columns = [''Game'', ''Note''],
      rows = [map_of [(''Game'', ''Powerball''), (''Note'', ''none'')]]\<rparr>"

definition undated_frame :: dataframe where
  \<comment> \<open>a file with a date column and no date in it\<close>
  "undated_frame =
     \<lparr>columns = [''Draw Date'', ''Winning Numbers''],
      rows = [map_of [(''Draw Date'', ''to be drawn''), (''Winning Numbers'', ''none'')]]\<rparr>"

definition example_world :: world where
  "example_world =
     \<lparr>files = [''data/powerball.csv'' \<mapsto> draws_frame, ''notes.csv'' \<mapsto> text_frame,
               ''undated.csv'' \<mapsto> undated_frame, ''mixed.csv'' \<mapsto> mixed_frame,
               ''export.csv'' \<mapsto> export_frame],
      stdout = [], stderr = [], requests = []\<rparr>"

definition cells :: "dataframe \<Rightarrow> cell list list" where
  \<comment> \<open>the cells of a frame, row by row in column order, as \<open>to_csv\<close> writes them\<close>
  "cells df = map (\<lambda>r. map r (columns df)) (rows df)"

section \<open>Properties of the pandas operations\<close>

lemma set_drop_duplicates_last_subset: "set (drop_duplicates_last k xs) \<subseteq> set xs"
  by (induction xs) auto

lemma keys_drop_duplicates_last: "k ` set (drop_duplicates_last k xs) = k ` set xs"
  by (induction xs) auto

lemma distinct_keys_drop_duplicates_last: "distinct (map k (drop_duplicates_last k xs))"
proof (induction xs)
  case Nil
  show ?case by simp
next
  case (Cons x xs)
  have "k x \<notin> k ` set xs \<Longrightarrow> k x \<notin> k ` set (drop_duplicates_last k xs)"
    by (simp add: keys_drop_duplicates_last)
  with Cons show ?case by auto
qed

lemma set_sort_values: "set (sort_values k xs) = set xs"
  by (auto simp: sort_values_def)

lemma distinct_keys_sort_values:
  assumes "distinct (map k xs)"
  shows "distinct (map k (sort_values k xs))"
proof -
  from assms have d: "distinct xs" and i: "inj_on k (set xs)"
    by (simp_all add: distinct_map)
  have "distinct (sort_values k xs)"
    using d by (auto simp: sort_values_def)
  moreover have "inj_on k (set (sort_values k xs))"
    using i by (simp add: set_sort_values)
  ultimately show ?thesis by (simp add: distinct_map)
qed

lemma sorted_sort_values:
  "sorted_wrt (\<lambda>a b. cell_le (k a) (k b)) (sort_values k xs)"
proof -
  let ?A = "filter (\<lambda>r. notna (k r)) xs"
  let ?S = "sort_key (\<lambda>r. the (k r)) ?A"
  have "sorted (map (\<lambda>r. the (k r)) ?S)"
    by (rule sorted_sort_key)
  then have s: "sorted_wrt (\<lambda>a b. the (k a) \<le> the (k b)) ?S"
    by (simp add: sorted_map)
  have "\<And>a b. a \<in> set ?S \<Longrightarrow> b \<in> set ?S \<Longrightarrow> the (k a) \<le> the (k b)
          \<Longrightarrow> cell_le (k a) (k b)"
    by (auto simp: notna_def split: option.splits)
  then have 1: "sorted_wrt (\<lambda>a b. cell_le (k a) (k b)) ?S"
    using s by (rule sorted_wrt_mono_rel)
  have 2: "sorted_wrt (\<lambda>a b. cell_le (k a) (k b)) (filter (\<lambda>r. \<not> notna (k r)) xs)"
    by (induction xs) (auto simp: notna_def split: option.splits)
  have 3: "\<And>a b. \<not> notna (k b) \<Longrightarrow> cell_le (k a) (k b)"
    by (auto simp: notna_def split: option.splits)
  show ?thesis unfolding sort_values_def
    by (simp add: sorted_wrt_append 1 2 3)
qed

text \<open>
  Where no two keys are equal there is one way to put the rows in order of their keys, so
  that every sort, stable or not, returns what \<open>sort_key\<close> returns. This is so in \<open>merge\<close>,
  which sorts after it has dropped the duplicates.
\<close>

lemma sort_key_unique:
  assumes "distinct (map f xs)" "set ys = set xs" "distinct ys" "sorted (map f ys)"
  shows "ys = sort_key f xs"
proof -
  from assms(1) have inj: "inj_on f (set xs)" and dx: "distinct xs"
    by (simp_all add: distinct_map)
  have "inj_on f (set ys \<union> set (sort_key f xs))" using inj assms(2) by simp
  moreover have "sorted (map f ys)" by (rule assms(4))
  moreover have "distinct (map f ys)" using assms(2,3) inj by (simp add: distinct_map)
  moreover have "sorted (map f (sort_key f xs))" by (rule sorted_sort_key)
  moreover have "distinct (map f (sort_key f xs))" using dx inj by (simp add: distinct_map)
  moreover have "set ys = set (sort_key f xs)" using assms(2) by simp
  ultimately show ?thesis by (rule map_sorted_distinct_set_unique)
qed

lemma drop_duplicates_last_is_last:
  "r \<in> set (drop_duplicates_last k xs) \<Longrightarrow> r = last (filter (\<lambda>x. k x = k r) xs)"
proof (induction xs)
  case Nil then show ?case by simp
next
  case (Cons x xs)
  show ?case
  proof (cases "r \<in> set (drop_duplicates_last k xs)")
    case True
    then have "r = last (filter (\<lambda>x. k x = k r) xs)" by (rule Cons.IH)
    moreover have "filter (\<lambda>x. k x = k r) xs \<noteq> []"
      using True set_drop_duplicates_last_subset[of k xs] by (auto simp: filter_empty_conv)
    ultimately show ?thesis by simp
  next
    case False
    with Cons.prems have rx: "r = x" and nk: "k x \<notin> set (map k xs)"
      by (auto split: if_splits)
    from nk have "\<forall>y\<in>set xs. k y \<noteq> k x" by (metis image_eqI set_map)
    then have "filter (\<lambda>y. k y = k r) xs = []" unfolding rx filter_empty_conv by simp
    then show ?thesis using rx by simp
  qed
qed

lemma drop_duplicates_last_append_new:
  "r \<in> set (drop_duplicates_last k (xs @ ys)) \<Longrightarrow> k r \<in> k ` set ys \<Longrightarrow> r = last (filter (\<lambda>x. k x = k r) ys)"
proof -
  assume a: "r \<in> set (drop_duplicates_last k (xs @ ys))" and b: "k r \<in> k ` set ys"
  from b have ne: "filter (\<lambda>x. k x = k r) ys \<noteq> []" by (auto simp: filter_empty_conv)
  from a have "r = last (filter (\<lambda>x. k x = k r) (xs @ ys))" by (rule drop_duplicates_last_is_last)
  with ne show ?thesis by simp
qed

lemma is_digit_iff: "is_digit c \<longleftrightarrow> 48 \<le> (of_char c :: nat) \<and> (of_char c :: nat) \<le> 57"
  by (simp add: is_digit_def less_eq_char_def)

lemma digit_val_lt10: "is_digit c \<Longrightarrow> digit_val c < 10"
  by (auto simp: is_digit_iff digit_val_def)

lemma digit_char_digit_val: "is_digit c \<Longrightarrow> digit_char (digit_val c) = c"
  by (auto simp: is_digit_iff digit_val_def digit_char_def)

lemma digit_val_digit_char: "n < 10 \<Longrightarrow> digit_val (digit_char n) = n"
  by (simp add: digit_val_def digit_char_def)

lemma is_digit_digit_char: "n < 10 \<Longrightarrow> is_digit (digit_char n)"
  by (simp add: is_digit_iff digit_char_def)

lemma digit_less_iff: "is_digit c \<Longrightarrow> is_digit c' \<Longrightarrow> c < c' \<longleftrightarrow> digit_val c < digit_val c'"
  by (auto simp: is_digit_iff digit_val_def less_char_def)

lemma digit_eq_iff: "is_digit c \<Longrightarrow> is_digit c' \<Longrightarrow> c = c' \<longleftrightarrow> digit_val c = digit_val c'"
  by (metis digit_char_digit_val)

lemma nat_of_digits_Cons:
  "nat_of_digits (c # cs) = digit_val c * 10 ^ length cs + nat_of_digits cs"
proof -
  define F where "F = (\<lambda>a c. 10 * a + digit_val c)"
  have "\<And>a. foldl F a cs = a * 10 ^ length cs + foldl F 0 cs"
  proof (induction cs rule: rev_induct)
    case Nil show ?case by simp
  next
    case (snoc x xs)
    have "foldl F a (xs @ [x]) = 10 * foldl F a xs + digit_val x"
      by (simp add: F_def)
    also have "\<dots> = 10 * (a * 10 ^ length xs + foldl F 0 xs) + digit_val x"
      by (simp only: snoc.IH[of a])
    also have "\<dots> = a * 10 ^ length (xs @ [x]) + (10 * foldl F 0 xs + digit_val x)"
      by (simp add: algebra_simps)
    also have "10 * foldl F 0 xs + digit_val x = foldl F 0 (xs @ [x])"
      by (simp add: F_def)
    finally show ?case .
  qed
  from this[of "F 0 c"] show ?thesis by (simp add: nat_of_digits_def F_def)
qed

lemma nat_of_digits_Nil: "nat_of_digits [] = 0"
  by (simp add: nat_of_digits_def)

lemma nat_of_digits_bound: "list_all is_digit cs \<Longrightarrow> nat_of_digits cs < 10 ^ length cs"
proof (induction cs)
  case Nil show ?case by (simp add: nat_of_digits_Nil)
next
  case (Cons c cs)
  then have "digit_val c \<le> 9" and "nat_of_digits cs < 10 ^ length cs"
    using digit_val_lt10[of c] by auto
  then have "digit_val c * 10 ^ length cs + nat_of_digits cs < 9 * 10 ^ length cs + 10 ^ length cs"
    by (meson add_le_less_mono mult_le_mono1)
  then show ?case by (simp add: nat_of_digits_Cons)
qed

lemma digits_less_iff:
  "length xs = length ys \<Longrightarrow> list_all is_digit xs \<Longrightarrow> list_all is_digit ys \<Longrightarrow>
     xs < ys \<longleftrightarrow> nat_of_digits xs < nat_of_digits ys"
proof (induction xs ys rule: list_induct2)
  case Nil show ?case by (simp add: nat_of_digits_Nil)
next
  case (Cons x xs y ys)
  let ?p = "(10::nat) ^ length ys"
  from Cons have dx: "is_digit x" and dy: "is_digit y"
    and bx: "nat_of_digits xs < ?p" and by': "nat_of_digits ys < ?p"
    using nat_of_digits_bound[of xs] nat_of_digits_bound[of ys] by auto
  have IH: "xs < ys \<longleftrightarrow> nat_of_digits xs < nat_of_digits ys" using Cons by simp
  consider "digit_val x < digit_val y" | "digit_val x = digit_val y" | "digit_val y < digit_val x"
    by linarith
  then show ?case
  proof cases
    case 1
    then have "digit_val x + 1 \<le> digit_val y" by simp
    then have "(digit_val x + 1) * ?p \<le> digit_val y * ?p" by (rule mult_le_mono1)
    then have "digit_val x * ?p + nat_of_digits xs < digit_val y * ?p + nat_of_digits ys"
      using bx by (simp add: algebra_simps)
    with 1 show ?thesis using dx dy Cons.hyps
      by (simp add: nat_of_digits_Cons digit_less_iff)
  next
    case 2
    then have "x = y" using dx dy by (simp add: digit_eq_iff)
    then show ?thesis using IH Cons.hyps by (simp add: nat_of_digits_Cons)
  next
    case 3
    then have "digit_val y + 1 \<le> digit_val x" by simp
    then have "(digit_val y + 1) * ?p \<le> digit_val x * ?p" by (rule mult_le_mono1)
    then have "\<not> digit_val x * ?p + nat_of_digits xs < digit_val y * ?p + nat_of_digits ys"
      using by' by (simp add: algebra_simps)
    moreover have "\<not> x < y" "x \<noteq> y" using 3 dx dy by (auto simp: digit_less_iff)
    ultimately show ?thesis using Cons.hyps by (simp add: nat_of_digits_Cons)
  qed
qed

lemma digits_eq_iff:
  "length xs = length ys \<Longrightarrow> list_all is_digit xs \<Longrightarrow> list_all is_digit ys \<Longrightarrow>
     xs = ys \<longleftrightarrow> nat_of_digits xs = nat_of_digits ys"
  using digits_less_iff[of xs ys] digits_less_iff[of ys xs]
  by (metis less_irrefl linorder_neqE)

lemma append_le_append_iff:
  "length a = length a' \<Longrightarrow> (a @ b \<le> a' @ b') \<longleftrightarrow> (a < a' \<or> (a = a' \<and> b \<le> b'))"
  for a :: string
  by (induction a a' rule: list_induct2) auto

lemma str_nat_small: "n < 10 \<Longrightarrow> str_nat n = [digit_char n]"
  by (subst str_nat.simps) simp

lemma str_nat_big: "\<not> n < 10 \<Longrightarrow> str_nat n = str_nat (n div 10) @ [digit_char (n mod 10)]"
  by (subst str_nat.simps) simp

lemma nat_of_digits_snoc:
  "nat_of_digits (cs @ [c]) = 10 * nat_of_digits cs + digit_val c"
  by (simp add: nat_of_digits_def)

lemma digit_val_zero: "digit_val (CHR ''0'') = 0"
  by (simp add: digit_val_def)

lemma is_digit_zero: "is_digit (CHR ''0'')"
  by (simp add: is_digit_iff)

lemma nat_of_digits_zeros: "nat_of_digits (replicate k (CHR ''0'') @ s) = nat_of_digits s"
  by (induction k) (simp_all add: nat_of_digits_Cons digit_val_zero)

lemma digits_zero:
  "list_all is_digit cs \<Longrightarrow> nat_of_digits cs = 0 \<Longrightarrow> cs = replicate (length cs) (CHR ''0'')"
proof (induction cs)
  case Nil show ?case by simp
next
  case (Cons c cs)
  then have "digit_val c = 0" and "nat_of_digits cs = 0"
    by (simp_all add: nat_of_digits_Cons)
  moreover from Cons.prems have "is_digit c" by simp
  ultimately have "c = CHR ''0''"
    using digit_eq_iff[of c "CHR ''0''"] by (simp add: is_digit_zero digit_val_zero)
  with Cons \<open>nat_of_digits cs = 0\<close> show ?case by simp
qed

lemma zfill_snoc: "zfill (Suc w) (x @ [c]) = zfill w x @ [c]"
  by (simp add: zfill_def)

lemma zfill_str_nat_of_digits:
  "list_all is_digit cs \<Longrightarrow> cs \<noteq> [] \<Longrightarrow> zfill (length cs) (str_nat (nat_of_digits cs)) = cs"
proof (induction cs rule: rev_induct)
  case Nil then show ?case by simp
next
  case (snoc c cs)
  then have dc: "is_digit c" and dcs: "list_all is_digit cs" by simp_all
  let ?a = "nat_of_digits cs"
  let ?n = "10 * ?a + digit_val c"
  have lt: "digit_val c < 10" using dc by (rule digit_val_lt10)
  show ?case
  proof (cases "?a = 0")
    case True
    then have "str_nat ?n = [c]"
      using lt dc by (simp add: str_nat_small digit_char_digit_val)
    moreover have "cs = replicate (length cs) (CHR ''0'')"
      using dcs True by (rule digits_zero)
    ultimately show ?thesis
      by (simp add: nat_of_digits_snoc zfill_def True)
  next
    case False
    then have ne: "cs \<noteq> []" by (auto simp: nat_of_digits_Nil)
    have "\<not> ?n < 10" using False by simp
    moreover have "?n div 10 = ?a" "?n mod 10 = digit_val c" using lt by simp_all
    ultimately have "str_nat ?n = str_nat ?a @ [c]"
      using dc str_nat_big[of ?n] by (simp add: digit_char_digit_val)
    then show ?thesis
      using snoc.IH[OF dcs ne] by (simp add: nat_of_digits_snoc zfill_snoc)
  qed
qed

lemma str_nat_props:
  "list_all is_digit (str_nat n) \<and> nat_of_digits (str_nat n) = n \<and> str_nat n \<noteq> []"
proof (induction n rule: str_nat.induct)
  case (1 n)
  show ?case
  proof (cases "n < 10")
    case True
    then show ?thesis
      by (simp add: str_nat_small is_digit_digit_char nat_of_digits_Cons nat_of_digits_Nil
          digit_val_digit_char)
  next
    case False
    have m: "n mod 10 < 10" by simp
    from False 1 have IH: "list_all is_digit (str_nat (n div 10))"
      "nat_of_digits (str_nat (n div 10)) = n div 10" by simp_all
    have eq: "str_nat n = str_nat (n div 10) @ [digit_char (n mod 10)]"
      using False by (rule str_nat_big)
    show ?thesis unfolding eq
      using IH m by (simp add: nat_of_digits_snoc is_digit_digit_char digit_val_digit_char)
  qed
qed

lemma length_str_nat: "n < 10 ^ w \<Longrightarrow> 0 < w \<Longrightarrow> length (str_nat n) \<le> w"
proof (induction n arbitrary: w rule: str_nat.induct)
  case (1 n)
  show ?case
  proof (cases "n < 10")
    case True
    then show ?thesis using "1.prems" by (simp add: str_nat_small)
  next
    case False
    have eq: "str_nat n = str_nat (n div 10) @ [digit_char (n mod 10)]"
      using False by (rule str_nat_big)
    from "1.prems" obtain v where w: "w = Suc v" by (cases w) auto
    with "1.prems" False have v: "0 < v" by (cases v) auto
    from "1.prems" w have "n div 10 < 10 ^ v" by (simp add: less_mult_imp_div_less mult.commute)
    with "1.IH"[OF False _ v] have "length (str_nat (n div 10)) \<le> v" by simp
    then show ?thesis unfolding eq w by simp
  qed
qed

lemma zfill_props:
  assumes "n < 10 ^ w" "0 < w"
  shows "length (zfill w (str_nat n)) = w" "list_all is_digit (zfill w (str_nat n))"
    "nat_of_digits (zfill w (str_nat n)) = n"
  using length_str_nat[OF assms] str_nat_props[of n]
  by (auto simp: zfill_def nat_of_digits_zeros is_digit_zero list_all_iff)

lemma split_ten:
  "length s = 10 \<Longrightarrow> s = take 4 s @ s ! 4 # take 2 (drop 5 s) @ s ! 7 # drop 8 s"
proof -
  assume l: "length s = 10"
  have 1: "s = take 4 s @ s ! 4 # drop 5 s"
    using id_take_nth_drop[of 4 s] l by simp
  have 2: "drop 5 s = take 2 (drop 5 s) @ (drop 5 s) ! 2 # drop 3 (drop 5 s)"
    using id_take_nth_drop[of 2 "drop 5 s"] l by simp
  have 3: "(drop 5 s) ! 2 = s ! 7" "drop 3 (drop 5 s) = drop 8 s" using l by simp_all
  show ?thesis using 1 2 3 by metis
qed

lemma read_iso_SomeD:
  assumes "read_iso s = Some (y, m, d)"
  shows "\<exists>Y M D. s = Y @ CHR ''-'' # M @ CHR ''-'' # D \<and> length Y = 4 \<and> length M = 2 \<and> length D = 2
           \<and> list_all is_digit Y \<and> list_all is_digit M \<and> list_all is_digit D
           \<and> y = nat_of_digits Y \<and> m = nat_of_digits M \<and> d = nat_of_digits D
           \<and> valid_date (y, m, d)"
proof -
  from assms have l: "length s = 10" and c: "s ! 4 = CHR ''-''" "s ! 7 = CHR ''-''"
    and dg: "list_all is_digit (take 4 s)" "list_all is_digit (take 2 (drop 5 s))"
      "list_all is_digit (drop 8 s)"
    and v: "y = nat_of_digits (take 4 s)" "m = nat_of_digits (take 2 (drop 5 s))"
      "d = nat_of_digits (drop 8 s)" "valid_date (y, m, d)"
    by (auto simp: read_iso_def Let_def split: if_splits)
  have "s = take 4 s @ CHR ''-'' # take 2 (drop 5 s) @ CHR ''-'' # drop 8 s"
    using split_ten[OF l] c by simp
  moreover have "length (take 4 s) = 4" "length (take 2 (drop 5 s)) = 2" "length (drop 8 s) = 2"
    using l by simp_all
  ultimately show ?thesis using dg v by blast
qed


lemma str_date_read_iso: "read_iso s = Some dt \<Longrightarrow> str_date dt = s"
proof -
  assume a: "read_iso s = Some dt"
  obtain y m d where dt: "dt = (y, m, d)" by (cases dt) auto
  from read_iso_SomeD[OF a[unfolded dt]] obtain Y M D where
    s: "s = Y @ CHR ''-'' # M @ CHR ''-'' # D" and l: "length Y = 4" "length M = 2" "length D = 2"
    and dg: "list_all is_digit Y" "list_all is_digit M" "list_all is_digit D"
    and v: "y = nat_of_digits Y" "m = nat_of_digits M" "d = nat_of_digits D"
    by blast
  have ne: "Y \<noteq> []" "M \<noteq> []" "D \<noteq> []" using l by auto
  have "zfill 4 (str_nat y) = Y" "zfill 2 (str_nat m) = M" "zfill 2 (str_nat d) = D"
    using zfill_str_nat_of_digits[OF dg(1) ne(1)] zfill_str_nat_of_digits[OF dg(2) ne(2)]
      zfill_str_nat_of_digits[OF dg(3) ne(3)] l v by simp_all
  then show ?thesis by (simp add: str_date_def dt s)
qed

lemma valid_date_bounds: "valid_date (y, m, d) \<Longrightarrow> y < 10 ^ 4 \<and> m < 10 ^ 2 \<and> d < 10 ^ 2"
  by (auto simp: valid_date_def days_in_month_def split: if_splits)


lemma read_iso_le_iff:
  assumes "read_iso s = Some ds" "read_iso t = Some dt"
  shows "s \<le> t \<longleftrightarrow> ds \<le> dt"
proof -
  obtain y m d where ds: "ds = (y, m, d)" by (cases ds) auto
  obtain y' m' d' where dt: "dt = (y', m', d')" by (cases dt) auto
  from read_iso_SomeD[OF assms(1)[unfolded ds]] obtain Y M D where
    s: "s = Y @ CHR ''-'' # M @ CHR ''-'' # D" and l: "length Y = 4" "length M = 2" "length D = 2"
    and dg: "list_all is_digit Y" "list_all is_digit M" "list_all is_digit D"
    and v: "y = nat_of_digits Y" "m = nat_of_digits M" "d = nat_of_digits D"
    by blast
  from read_iso_SomeD[OF assms(2)[unfolded dt]] obtain Y' M' D' where
    t: "t = Y' @ CHR ''-'' # M' @ CHR ''-'' # D'" and l': "length Y' = 4" "length M' = 2" "length D' = 2"
    and dg': "list_all is_digit Y'" "list_all is_digit M'" "list_all is_digit D'"
    and v': "y' = nat_of_digits Y'" "m' = nat_of_digits M'" "d' = nat_of_digits D'"
    by blast
  have Y: "Y < Y' \<longleftrightarrow> y < y'" "Y = Y' \<longleftrightarrow> y = y'"
    using digits_less_iff[of Y Y'] digits_eq_iff[of Y Y'] l l' dg dg' v v' by simp_all
  have M: "M < M' \<longleftrightarrow> m < m'" "M = M' \<longleftrightarrow> m = m'"
    using digits_less_iff[of M M'] digits_eq_iff[of M M'] l l' dg dg' v v' by simp_all
  have D: "D < D' \<longleftrightarrow> d < d'" "D = D' \<longleftrightarrow> d = d'"
    using digits_less_iff[of D D'] digits_eq_iff[of D D'] l l' dg dg' v v' by simp_all
  have "s \<le> t \<longleftrightarrow> Y < Y' \<or> (Y = Y' \<and> (M < M' \<or> (M = M' \<and> D \<le> D')))"
    unfolding s t using l l'
    by (simp add: append_le_append_iff)
  also have "\<dots> \<longleftrightarrow> (y, m, d) \<le> (y', m', d')"
    using Y M D by (auto simp: less_eq_prod_def le_less)
  finally show ?thesis by (simp add: ds dt)
qed

lemma read_iso_inj: "read_iso s = Some d \<Longrightarrow> read_iso t = Some d \<Longrightarrow> s = t"
  using str_date_read_iso by metis

lemma str_date_less_NaT: "valid_date dt \<Longrightarrow> str_date dt < ''NaT''"
proof -
  assume v: "valid_date dt"
  obtain y m d where dt: "dt = (y, m, d)" by (cases dt) auto
  from v dt have b: "y < 10 ^ 4" using valid_date_bounds by blast
  let ?Y = "zfill 4 (str_nat y)"
  from zfill_props[OF b] have "length ?Y = 4" "list_all is_digit ?Y" by simp_all
  then obtain c cs where Y: "?Y = c # cs" and c: "is_digit c"
    by (cases ?Y) auto
  from c have "c < CHR ''N''" by (simp add: is_digit_iff less_char_def)
  then show ?thesis by (simp add: str_date_def dt Y)
qed

section \<open>Merging the fetched rows\<close>

lemma canonical_cellD: "canonical_cell c \<Longrightarrow> \<exists>s d. c = Some s \<and> read_iso s = Some d"
  by (auto simp: canonical_cell_def is_canonical_def notna_def split: option.splits)

lemma canonical_date_canonical: "read_iso s = Some d \<Longrightarrow> canonical_date (Some s) = Some d"
  by (simp add: canonical_date_def read_date_def)

lemma set_merge: "set (merge e n) \<subseteq> set (e @ n)"
  unfolding merge_def set_sort_values by (rule set_drop_duplicates_last_subset)

text \<open>
  What \<open>merge\<close> does. It puts the new rows after the existing rows and keeps, for every
  Draw Date cell compared as the text it is, only the row that comes last; it keeps every
  Draw Date that occurs and returns the rows in ascending order of that text, a row with
  a missing date last. Where every Draw Date cell of both tables is canonical text, this
  is one row for a calendar date, in ascending order of the date.
\<close>

lemma merge_by_draw_date_text:
  "distinct (map draw_date (merge e n))
   \<and> sorted_wrt (\<lambda>a b. cell_le (draw_date a) (draw_date b)) (merge e n)
   \<and> draw_date ` set (merge e n) = draw_date ` set (e @ n)
   \<and> (\<forall>r \<in> set (merge e n). r = last (filter (\<lambda>x. draw_date x = draw_date r) (e @ n)))
   \<and> (\<forall>r \<in> set (merge e n). draw_date r \<in> draw_date ` set n \<longrightarrow>
         r = last (filter (\<lambda>x. draw_date x = draw_date r) n))
   \<and> ((\<forall>r \<in> set (e @ n). canonical_cell (draw_date r)) \<longrightarrow>
         distinct (map (canonical_date \<circ> draw_date) (merge e n))
         \<and> sorted_wrt (\<lambda>a b. cell_le (canonical_date (draw_date a)) (canonical_date (draw_date b)))
              (merge e n))"
proof (intro conjI ballI impI)
  let ?k = "draw_date :: canonical_row \<Rightarrow> cell"
  let ?d = "drop_duplicates_last ?k (e @ n)"
  show dist: "distinct (map ?k (merge e n))"
    unfolding merge_def
    by (rule distinct_keys_sort_values) (rule distinct_keys_drop_duplicates_last)
  show srt: "sorted_wrt (\<lambda>a b. cell_le (?k a) (?k b)) (merge e n)"
    unfolding merge_def by (rule sorted_sort_values)
  show "?k ` set (merge e n) = ?k ` set (e @ n)"
    unfolding merge_def set_sort_values by (rule keys_drop_duplicates_last)
  {
    fix r assume r: "r \<in> set (merge e n)"
    then have rd: "r \<in> set ?d" by (simp add: merge_def set_sort_values)
    then show "r = last (filter (\<lambda>x. ?k x = ?k r) (e @ n))"
      by (rule drop_duplicates_last_is_last)
    assume "?k r \<in> ?k ` set n"
    with rd show "r = last (filter (\<lambda>x. ?k x = ?k r) n)"
      by (rule drop_duplicates_last_append_new)
  }
  {
    assume can: "\<forall>r \<in> set (e @ n). canonical_cell (?k r)"
    have can': "\<And>r. r \<in> set (merge e n) \<Longrightarrow> \<exists>s d. ?k r = Some s \<and> read_iso s = Some d"
      using can set_merge[of e n] canonical_cellD by blast
    have "inj_on canonical_date (set (map ?k (merge e n)))"
    proof (rule inj_onI)
      fix a b assume a: "a \<in> set (map ?k (merge e n))" and b: "b \<in> set (map ?k (merge e n))"
        and eq: "canonical_date a = canonical_date b"
      from a obtain ra where ra: "ra \<in> set (merge e n)" "a = ?k ra" by auto
      from b obtain rb where rb: "rb \<in> set (merge e n)" "b = ?k rb" by auto
      from can'[OF ra(1)] ra(2) obtain s ds where s: "a = Some s" "read_iso s = Some ds"
        by blast
      from can'[OF rb(1)] rb(2) obtain t dt where t: "b = Some t" "read_iso t = Some dt"
        by blast
      from eq s t have "ds = dt" by (simp add: canonical_date_canonical)
      with s t have "s = t" using read_iso_inj by blast
      with s t show "a = b" by simp
    qed
    with dist have "distinct (map canonical_date (map ?k (merge e n)))"
      by (simp only: distinct_map[of canonical_date] simp_thms)
    then show "distinct (map (canonical_date \<circ> ?k) (merge e n))" by simp
    have "\<And>a b. a \<in> set (merge e n) \<Longrightarrow> b \<in> set (merge e n) \<Longrightarrow> cell_le (?k a) (?k b)
             \<Longrightarrow> cell_le (canonical_date (?k a)) (canonical_date (?k b))"
    proof -
      fix a b assume a: "a \<in> set (merge e n)" and b: "b \<in> set (merge e n)"
        and le: "cell_le (?k a) (?k b)"
      from a can' obtain s ds where s: "?k a = Some s" and ds: "read_iso s = Some ds" by blast
      from b can' obtain t dt where t: "?k b = Some t" and dt: "read_iso t = Some dt" by blast
      from le s t have "s \<le> t" by simp
      then have "ds \<le> dt" using read_iso_le_iff[OF ds dt] by simp
      then show "cell_le (canonical_date (?k a)) (canonical_date (?k b))"
        using s t ds dt by (simp add: canonical_date_canonical)
    qed
    then show "sorted_wrt (\<lambda>a b. cell_le (canonical_date (?k a)) (canonical_date (?k b))) (merge e n)"
      using srt by (rule sorted_wrt_mono_rel)
  }
qed

text \<open>
  C1. The merge is to keep one row for a date and to return the rows in ascending order
  of the date. The updater is written for the export of the data set, whose dates are
  \<open>MM/DD/YYYY\<close>; it brings the rows it fetches to canonical text and leaves the rows of
  the file as they are, and \<open>drop_duplicates\<close> and \<open>sort_values\<close> compare the texts. With the
  draws of 30 December 2023 and 6 January 2024 in the file and the draw of 8 January 2024
  fetched, the file written has 6 January before 30 December; and where the draw of 6
  January 2024 is among the rows fetched, both rows of that day stay.
\<close>

theorem merge_text_order_failing_input:
  "map_option cells
     (files (snd (updater_main first_layout None (one_draw ''2024-01-08'') ''export.csv''
                    example_world)) ''export.csv'')
   = Some [[Some ''01/06/2024'', Some ''01 02 03 04 05 06'', Some ''3''],
           [Some ''12/30/2023'', Some ''10 20 30 40 50 01'', Some ''2''],
           [Some ''2024-01-08'', Some ''11 12 13 14 15 16'', Some ''2'']]
   \<and> map (canonical_date \<circ> draw_date)
       (merge (existing_rows export_frame ''Draw Date'' (Some ''Winning Numbers'') (Some ''Multiplier''))
          [\<lparr>draw_date = Some ''2024-01-08'', winning_numbers = Some ''11 12 13 14 15 16'',
            multiplier = Some ''2''\<rparr>])
     = [Some (2024, 1, 6), Some (2023, 12, 30), Some (2024, 1, 8)]
   \<and> \<not> sorted_wrt cell_le [Some (2024, 1, 6), Some (2023, 12, 30), Some (2024 :: nat, 1 :: nat, 8 :: nat)]
   \<and> map (canonical_date \<circ> draw_date)
       (merge (existing_rows export_frame ''Draw Date'' (Some ''Winning Numbers'') (Some ''Multiplier''))
          [\<lparr>draw_date = Some ''2024-01-06'', winning_numbers = Some ''11 12 13 14 15 16'',
            multiplier = Some ''2''\<rparr>])
     = [Some (2024, 1, 6), Some (2023, 12, 30), Some (2024, 1, 6)]
   \<and> \<not> distinct [Some (2024, 1, 6), Some (2023, 12, 30), Some (2024 :: nat, 1 :: nat, 6 :: nat)]"
  by code_simp

section \<open>Finding the date column by name\<close>

lemma name_match_first:
  "norm c \<in> DATE_CANDIDATES \<Longrightarrow> \<forall>x \<in> set pre. norm x \<notin> DATE_CANDIDATES \<Longrightarrow>
     name_match (pre @ c # post) = Some c"
  by (induction pre) simp_all

lemma name_match_None: "name_match cs = None \<longleftrightarrow> (\<forall>x \<in> set cs. norm x \<notin> DATE_CANDIDATES)"
  by (induction cs) simp_all

lemma pick_find: "pick cols opts = find (\<lambda>n. n \<in> set cols) opts"
  by (induction opts) simp_all

text \<open>
  C2 (as amended). In the sorter, \<open>guess_date_col\<close> lowercases each header and takes out
  of it every character that is not a letter or a digit, looks the result up in the
  candidate set, and returns the first header in column order whose result is in the set.
  So a change of letter case and the insertion of a character that is neither letter nor
  digit leave the result the same, and "Draw Date", "draw_date" and "DRAW-DATE" all give
  "drawdate", a candidate. The updater does not do this: \<open>pick\<close> returns the first of the
  spellings it is given that is a header as it stands, and none if no spelling is one.
\<close>

theorem guess_date_col_by_name:
  "(columns df = pre @ c # post \<and> norm c \<in> DATE_CANDIDATES
      \<and> (\<forall>x \<in> set pre. norm x \<notin> DATE_CANDIDATES)
      \<longrightarrow> guess_date_col parse df = Some c)
   \<and> ((\<forall>x. lower_char (f x) = lower_char x) \<longrightarrow> norm (map f h) = norm h)
   \<and> (\<not> keep_char (lower_char p) \<longrightarrow> norm (xs @ p # ys) = norm (xs @ ys))
   \<and> norm ''Draw Date'' = ''drawdate'' \<and> norm ''draw_date'' = ''drawdate''
   \<and> norm ''DRAW-DATE'' = ''drawdate'' \<and> ''drawdate'' \<in> DATE_CANDIDATES
   \<and> pick cols opts = find (\<lambda>n. n \<in> set cols) opts"
proof (intro conjI impI)
  assume "columns df = pre @ c # post \<and> norm c \<in> DATE_CANDIDATES
      \<and> (\<forall>x \<in> set pre. norm x \<notin> DATE_CANDIDATES)"
  then have "name_match (columns df) = Some c"
    by (simp add: name_match_first)
  then show "guess_date_col parse df = Some c"
    by (simp add: guess_date_col_def)
next
  assume "\<forall>x. lower_char (f x) = lower_char x"
  then have "map lower_char (map f h) = map lower_char h" by simp
  then show "norm (map f h) = norm h" unfolding norm_def by (rule arg_cong)
next
  assume "\<not> keep_char (lower_char p)"
  then show "norm (xs @ p # ys) = norm (xs @ ys)" by (simp add: norm_def)
next
  show "norm ''Draw Date'' = ''drawdate''" by code_simp
  show "norm ''draw_date'' = ''drawdate''" by code_simp
  show "norm ''DRAW-DATE'' = ''drawdate''" by code_simp
  show "''drawdate'' \<in> DATE_CANDIDATES" by (simp add: DATE_CANDIDATES_def)
  show "pick cols opts = find (\<lambda>n. n \<in> set cols) opts" by (rule pick_find)
qed

text \<open>
  A file whose second header is "DRAW-DATE" and whose third is "date": the second is
  the date column. Writing a header in capitals, or with a hyphen put in, does not change
  what it is looked up as.
\<close>

theorem guess_date_col_by_name_witness:
  "guess_date_col first_layout
     \<lparr>columns = [''Winning Numbers'', ''DRAW-DATE'', ''date''], rows = []\<rparr> = Some ''DRAW-DATE''
   \<and> norm (map (\<lambda>x. if x = CHR ''d'' then CHR ''D'' else x) ''draw date'') = norm ''draw date''
   \<and> norm (''draw'' @ CHR ''-'' # ''date'') = norm (''draw'' @ ''date'')"
proof -
  let ?df = "\<lparr>columns = [''Winning Numbers'', ''DRAW-DATE'', ''date''], rows = []\<rparr>"
  let ?f = "\<lambda>x. if x = CHR ''d'' then CHR ''D'' else x"
  have 1: "columns ?df = [''Winning Numbers''] @ ''DRAW-DATE'' # [''date'']
      \<and> norm ''DRAW-DATE'' \<in> DATE_CANDIDATES
      \<and> (\<forall>x \<in> set [''Winning Numbers'']. norm x \<notin> DATE_CANDIDATES)"
    by code_simp
  have "lower_char (CHR ''D'') = lower_char (CHR ''d'')" by code_simp
  then have 2: "\<forall>x. lower_char (?f x) = lower_char x" by simp
  have 3: "\<not> keep_char (lower_char (CHR ''-''))" by code_simp
  note t = guess_date_col_by_name[of ?df "[''Winning Numbers'']" "''DRAW-DATE''" "[''date'']"
      first_layout ?f "''draw date''" "CHR ''-''" "''draw''" "''date''"]
  from t 1 have a: "guess_date_col first_layout ?df = Some ''DRAW-DATE''" by blast
  from t 2 have b: "norm (map ?f ''draw date'') = norm ''draw date''" by blast
  from t 3 have c: "norm (''draw'' @ CHR ''-'' # ''date'') = norm (''draw'' @ ''date'')" by blast
  from a b c show ?thesis by blast
qed

text \<open>
  C2 as stated fails in the updater. "DRAW-DATE" is looked up as a candidate, and yet
  \<open>pick\<close> finds no date column in a file with that header, so that the run ends with
  exit code 3; and of the headers "date" and "Draw Date", in this order, \<open>pick\<close> returns
  the second.
\<close>

theorem pick_not_normalized_counterexample:
  "norm ''DRAW-DATE'' \<in> DATE_CANDIDATES
   \<and> pick [''DRAW-DATE'', ''Winning Numbers'', ''Multiplier'']
        [''Draw Date'', ''draw_date'', ''Draw date'', ''date''] = None
   \<and> fst (updater_main first_layout None (\<lambda>d. None) ''powerball.csv''
        \<lparr>files = [''powerball.csv'' \<mapsto>
                   \<lparr>columns = [''DRAW-DATE'', ''Winning Numbers'', ''Multiplier''], rows = []\<rparr>],
         stdout = [], stderr = [], requests = []\<rparr>) = Exit 3
   \<and> pick [''date'', ''Draw Date''] [''Draw Date'', ''draw_date'', ''Draw date'', ''date'']
        = Some ''Draw Date''"
  by code_simp

section \<open>Finding the date column by content\<close>

lemma content_match_keep:
  "\<forall>x \<in> set cs. hits parse df x \<le> hits parse df c \<Longrightarrow>
     content_match parse df cs (Some c, int (hits parse df c)) = (Some c, int (hits parse df c))"
  by (induction cs) simp_all

lemma content_match_first_max:
  assumes "0 < hits parse df c" "\<forall>x \<in> set post. hits parse df x \<le> hits parse df c"
  shows "h < int (hits parse df c) \<Longrightarrow> \<forall>x \<in> set pre. hits parse df x < hits parse df c \<Longrightarrow>
     content_match parse df (pre @ c # post) (b, h) = (Some c, int (hits parse df c))"
proof (induction pre arbitrary: b h)
  case Nil
  then show ?case using assms by (simp add: content_match_keep)
next
  case (Cons x pre)
  then have lt: "int (hits parse df x) < int (hits parse df c)"
    and rest: "\<forall>x \<in> set pre. hits parse df x < hits parse df c" by simp_all
  show ?case
  proof (cases "int (hits parse df x) > h \<and> hits parse df x > 0")
    case True
    then show ?thesis using Cons.IH[OF lt rest] by simp
  next
    case False
    then show ?thesis using Cons.IH[OF Cons.prems(1) rest] by auto
  qed
qed

lemma content_match_result:
  "content_match parse df cs (b, h) = (b', h') \<Longrightarrow>
     (b' = b \<and> h' = h \<and> (\<forall>x \<in> set cs. \<not> (int (hits parse df x) > h \<and> hits parse df x > 0)))
     \<or> (\<exists>pre c post. cs = pre @ c # post \<and> b' = Some c \<and> h' = int (hits parse df c)
           \<and> 0 < hits parse df c \<and> h < h'
           \<and> (\<forall>x \<in> set pre. int (hits parse df x) < h')
           \<and> (\<forall>x \<in> set post. int (hits parse df x) \<le> h'))"
proof (induction cs arbitrary: b h)
  case Nil
  then show ?case by simp
next
  case (Cons x cs)
  let ?hx = "hits parse df x"
  show ?case
  proof (cases "int ?hx > h \<and> ?hx > 0")
    case True
    with Cons.prems have "content_match parse df cs (Some x, int ?hx) = (b', h')" by simp
    from Cons.IH[OF this] show ?thesis
    proof
      assume "b' = Some x \<and> h' = int ?hx
        \<and> (\<forall>y \<in> set cs. \<not> (int (hits parse df y) > int ?hx \<and> hits parse df y > 0))"
      then have "x # cs = [] @ x # cs \<and> b' = Some x \<and> h' = int ?hx \<and> 0 < ?hx \<and> h < h'
          \<and> (\<forall>y \<in> set []. int (hits parse df y) < h')
          \<and> (\<forall>y \<in> set cs. int (hits parse df y) \<le> h')"
        using True by auto
      then show ?thesis by blast
    next
      assume "\<exists>pre c post. cs = pre @ c # post \<and> b' = Some c \<and> h' = int (hits parse df c)
           \<and> 0 < hits parse df c \<and> int ?hx < h'
           \<and> (\<forall>y \<in> set pre. int (hits parse df y) < h')
           \<and> (\<forall>y \<in> set post. int (hits parse df y) \<le> h')"
      then obtain pre c post where p: "cs = pre @ c # post" "b' = Some c"
        "h' = int (hits parse df c)" "0 < hits parse df c" "int ?hx < h'"
        "\<forall>y \<in> set pre. int (hits parse df y) < h'" "\<forall>y \<in> set post. int (hits parse df y) \<le> h'"
        by blast
      then have "x # cs = (x # pre) @ c # post \<and> b' = Some c \<and> h' = int (hits parse df c)
          \<and> 0 < hits parse df c \<and> h < h'
          \<and> (\<forall>y \<in> set (x # pre). int (hits parse df y) < h')
          \<and> (\<forall>y \<in> set post. int (hits parse df y) \<le> h')"
        using True by auto
      then show ?thesis by blast
    qed
  next
    case False
    with Cons.prems have "content_match parse df cs (b, h) = (b', h')" by auto
    from Cons.IH[OF this] show ?thesis
    proof
      assume "b' = b \<and> h' = h
        \<and> (\<forall>y \<in> set cs. \<not> (int (hits parse df y) > h \<and> hits parse df y > 0))"
      then show ?thesis using False by auto
    next
      assume "\<exists>pre c post. cs = pre @ c # post \<and> b' = Some c \<and> h' = int (hits parse df c)
           \<and> 0 < hits parse df c \<and> h < h'
           \<and> (\<forall>y \<in> set pre. int (hits parse df y) < h')
           \<and> (\<forall>y \<in> set post. int (hits parse df y) \<le> h')"
      then obtain pre c post where p: "cs = pre @ c # post" "b' = Some c"
        "h' = int (hits parse df c)" "0 < hits parse df c" "h < h'"
        "\<forall>y \<in> set pre. int (hits parse df y) < h'" "\<forall>y \<in> set post. int (hits parse df y) \<le> h'"
        by blast
      have "int ?hx < h'" using False p(4,3,5) by auto
      with p have "x # cs = (x # pre) @ c # post \<and> b' = Some c \<and> h' = int (hits parse df c)
          \<and> 0 < hits parse df c \<and> h < h'
          \<and> (\<forall>y \<in> set (x # pre). int (hits parse df y) < h')
          \<and> (\<forall>y \<in> set post. int (hits parse df y) \<le> h')"
        by auto
      then show ?thesis by blast
    qed
  qed
qed

text \<open>
  C3. When no header is looked up as a candidate, \<open>guess_date_col\<close> counts for every
  column the cells that pandas reads as a date. It returns no column exactly when the
  count of every column is zero, and it returns the column \<open>c\<close> exactly when the count of
  \<open>c\<close> is positive, every column before \<open>c\<close> has a smaller count and no column after \<open>c\<close>
  has a greater one: the first of the columns with the highest count.
\<close>

theorem guess_date_col_by_content:
  assumes "\<forall>x \<in> set (columns df). norm x \<notin> DATE_CANDIDATES"
  shows "(guess_date_col parse df = None \<longleftrightarrow> (\<forall>x \<in> set (columns df). hits parse df x = 0))
    \<and> (guess_date_col parse df = Some c \<longleftrightarrow>
         (\<exists>pre post. columns df = pre @ c # post \<and> 0 < hits parse df c
            \<and> (\<forall>x \<in> set pre. hits parse df x < hits parse df c)
            \<and> (\<forall>x \<in> set post. hits parse df x \<le> hits parse df c)))"
proof -
  let ?cs = "columns df"
  let ?r = "content_match parse df ?cs (None, - 1)"
  from assms have "name_match ?cs = None" by (simp add: name_match_None)
  then have g: "guess_date_col parse df = fst ?r" by (simp add: guess_date_col_def)
  have fwd: "\<And>c. (\<exists>pre post. ?cs = pre @ c # post \<and> 0 < hits parse df c
            \<and> (\<forall>x \<in> set pre. hits parse df x < hits parse df c)
            \<and> (\<forall>x \<in> set post. hits parse df x \<le> hits parse df c)) \<Longrightarrow> fst ?r = Some c"
  proof -
    fix c assume "\<exists>pre post. ?cs = pre @ c # post \<and> 0 < hits parse df c
            \<and> (\<forall>x \<in> set pre. hits parse df x < hits parse df c)
            \<and> (\<forall>x \<in> set post. hits parse df x \<le> hits parse df c)"
    then obtain pre post where p: "?cs = pre @ c # post" "0 < hits parse df c"
      "\<forall>x \<in> set pre. hits parse df x < hits parse df c"
      "\<forall>x \<in> set post. hits parse df x \<le> hits parse df c" by blast
    have "content_match parse df (pre @ c # post) (None, - 1) = (Some c, int (hits parse df c))"
      using p(2,4) _ p(3) by (rule content_match_first_max) simp
    then show "fst ?r = Some c" by (simp add: p(1))
  qed
  obtain b' h' where r: "?r = (b', h')" by (cases ?r) auto
  from content_match_result[OF r] consider
    (none) "b' = None" "\<forall>x \<in> set ?cs. hits parse df x = 0"
    | (some) pre c' post where "?cs = pre @ c' # post" "b' = Some c'" "0 < hits parse df c'"
        "\<forall>x \<in> set pre. hits parse df x < hits parse df c'"
        "\<forall>x \<in> set post. hits parse df x \<le> hits parse df c'"
    by auto
  then show ?thesis
  proof cases
    case none
    then have "\<not> (\<exists>pre post. ?cs = pre @ c # post \<and> 0 < hits parse df c
            \<and> (\<forall>x \<in> set pre. hits parse df x < hits parse df c)
            \<and> (\<forall>x \<in> set post. hits parse df x \<le> hits parse df c))"
      by auto
    with none show ?thesis by (simp add: g r)
  next
    case some
    then have nz: "\<not> (\<forall>x \<in> set ?cs. hits parse df x = 0)" by auto
    have "fst ?r = Some c \<longleftrightarrow> (\<exists>pre post. ?cs = pre @ c # post \<and> 0 < hits parse df c
            \<and> (\<forall>x \<in> set pre. hits parse df x < hits parse df c)
            \<and> (\<forall>x \<in> set post. hits parse df x \<le> hits parse df c))"
    proof
      assume "fst ?r = Some c"
      with r some(2) have "c = c'" by simp
      with some show "\<exists>pre post. ?cs = pre @ c # post \<and> 0 < hits parse df c
            \<and> (\<forall>x \<in> set pre. hits parse df x < hits parse df c)
            \<and> (\<forall>x \<in> set post. hits parse df x \<le> hits parse df c)" by blast
    qed (rule fwd)
    with nz some(2) show ?thesis by (simp add: g r)
  qed
qed

text \<open>
  A file with the headers "Game", "Drawn" and "Entered", none of them a candidate, of
  which the last two hold two dates each: the first of the two is returned. A file that
  holds no date has no date column.
\<close>

theorem guess_date_col_by_content_witness:
  "guess_date_col first_layout
     \<lparr>columns = [''Game'', ''Drawn'', ''Entered''],
      rows = [map_of [(''Game'', ''Powerball''), (''Drawn'', ''01/03/2024''), (''Entered'', ''2024-01-04'')],
              map_of [(''Game'', ''Powerball''), (''Drawn'', ''01/06/2024''), (''Entered'', ''2024-01-07'')]]\<rparr>
     = Some ''Drawn''
   \<and> guess_date_col first_layout
     \<lparr>columns = [''Game'', ''Note''],
      rows = [map_of [(''Game'', ''Powerball''), (''Note'', ''none'')]]\<rparr> = None"
  (is "guess_date_col ?P ?df1 = _ \<and> guess_date_col ?P ?df2 = _")
proof
  have n1: "\<forall>x \<in> set (columns ?df1). norm x \<notin> DATE_CANDIDATES" by code_simp
  have "columns ?df1 = [''Game''] @ ''Drawn'' # [''Entered''] \<and> 0 < hits ?P ?df1 ''Drawn''
      \<and> (\<forall>x \<in> set [''Game'']. hits ?P ?df1 x < hits ?P ?df1 ''Drawn'')
      \<and> (\<forall>x \<in> set [''Entered'']. hits ?P ?df1 x \<le> hits ?P ?df1 ''Drawn'')"
    by code_simp
  then have "\<exists>pre post. columns ?df1 = pre @ ''Drawn'' # post \<and> 0 < hits ?P ?df1 ''Drawn''
      \<and> (\<forall>x \<in> set pre. hits ?P ?df1 x < hits ?P ?df1 ''Drawn'')
      \<and> (\<forall>x \<in> set post. hits ?P ?df1 x \<le> hits ?P ?df1 ''Drawn'')"
    by blast
  with guess_date_col_by_content[OF n1, of ?P "''Drawn''"]
  show "guess_date_col ?P ?df1 = Some ''Drawn''" by blast
  have n2: "\<forall>x \<in> set (columns ?df2). norm x \<notin> DATE_CANDIDATES" by code_simp
  have "\<forall>x \<in> set (columns ?df2). hits ?P ?df2 x = 0" by code_simp
  with guess_date_col_by_content[OF n2, of ?P]
  show "guess_date_col ?P ?df2 = None" by blast
qed

section \<open>Normalizing the date column\<close>

lemma normalize_column_rows:
  "rows (normalize_column parse na df col) =
     map (\<lambda>r. r(col := date_key parse na df col r)) (rows df)"
  unfolding normalize_column_def set_column_def to_datetime_def column_def date_key_def
    parsed_date_def
  by (simp add: zip_map2 zip_same_conv_map)














section \<open>Sorting the file\<close>

lemma sort_values_desc_stable:
  "filter (\<lambda>r. k r = v) (sort_values_desc k xs) = filter (\<lambda>r. k r = v) xs"
proof (cases v)
  case None
  have "filter (\<lambda>r. k r = None) (rev (sort_key (\<lambda>r. the (k r)) (rev (filter (\<lambda>r. notna (k r)) xs)))) = []"
    by (auto simp: filter_empty_conv notna_def split: option.splits)
  moreover have "filter (\<lambda>r. k r = None) (filter (\<lambda>r. \<not> notna (k r)) xs) = filter (\<lambda>r. k r = None) xs"
    by (auto simp: notna_def intro: filter_cong)
  ultimately show ?thesis by (simp add: sort_values_desc_def None)
next
  case (Some t)
  let ?A = "filter (\<lambda>r. notna (k r)) xs"
  let ?f = "\<lambda>r. the (k r)"
  have eq: "\<And>ys. set ys \<subseteq> set ?A \<Longrightarrow> filter (\<lambda>r. k r = Some t) ys = filter (\<lambda>r. ?f r = t) ys"
    by (rule filter_cong) (auto simp: notna_def split: option.splits)
  have "filter (\<lambda>r. k r = Some t) (sort_key ?f (rev ?A)) = filter (\<lambda>r. ?f r = t) (sort_key ?f (rev ?A))"
    by (rule eq) simp
  also have "\<dots> = filter (\<lambda>r. ?f r = t) (rev ?A)" by (rule sort_key_stable)
  also have "\<dots> = filter (\<lambda>r. k r = Some t) (rev ?A)" by (rule eq[symmetric]) simp
  finally have 1: "filter (\<lambda>r. k r = Some t) (rev (sort_key ?f (rev ?A))) = filter (\<lambda>r. k r = Some t) ?A"
    by (simp add: rev_filter[symmetric])
  have 2: "filter (\<lambda>r. k r = Some t) ?A = filter (\<lambda>r. k r = Some t) xs"
    by (auto simp: notna_def intro: filter_cong)
  have 3: "filter (\<lambda>r. k r = Some t) (filter (\<lambda>r. \<not> notna (k r)) xs) = []"
    by (auto simp: filter_empty_conv notna_def)
  have "filter (\<lambda>r. k r = Some t) (sort_values_desc k xs)
      = filter (\<lambda>r. k r = Some t) (rev (sort_key ?f (rev ?A)))
        @ filter (\<lambda>r. k r = Some t) (filter (\<lambda>r. \<not> notna (k r)) xs)"
    by (simp only: sort_values_desc_def filter_append)
  also have "\<dots> = filter (\<lambda>r. k r = Some t) xs"
    by (simp only: 1 2 3 append_Nil2)
  finally show ?thesis by (simp only: Some)
qed

lemma set_sort_values_desc: "set (sort_values_desc k xs) = set xs"
  by (auto simp: sort_values_desc_def)

lemma length_sort_values_desc: "length (sort_values_desc k xs) = length xs"
proof -
  have "length (filter (\<lambda>r. notna (k r)) xs) + length (filter (\<lambda>r. \<not> notna (k r)) xs) = length xs"
    by (rule sum_length_filter_compl)
  then show ?thesis by (simp add: sort_values_desc_def)
qed

lemma sorted_sort_values_desc:
  "sorted_wrt (\<lambda>a b. cell_ge (k a) (k b)) (sort_values_desc k xs)"
proof -
  let ?A = "filter (\<lambda>r. notna (k r)) xs"
  let ?f = "\<lambda>r. the (k r)"
  let ?S = "rev (sort_key ?f (rev ?A))"
  have "sorted (map ?f (sort_key ?f (rev ?A)))" by (rule sorted_sort_key)
  then have "sorted_wrt (\<lambda>a b. ?f a \<le> ?f b) (sort_key ?f (rev ?A))" by (simp add: sorted_map)
  then have s: "sorted_wrt (\<lambda>a b. ?f b \<le> ?f a) ?S" by (simp add: sorted_wrt_rev)
  have "\<And>a b. a \<in> set ?S \<Longrightarrow> b \<in> set ?S \<Longrightarrow> ?f b \<le> ?f a \<Longrightarrow> cell_ge (k a) (k b)"
    by (auto simp: notna_def split: option.splits)
  then have 1: "sorted_wrt (\<lambda>a b. cell_ge (k a) (k b)) ?S"
    using s by (rule sorted_wrt_mono_rel)
  have 2: "sorted_wrt (\<lambda>a b. cell_ge (k a) (k b)) (filter (\<lambda>r. \<not> notna (k r)) xs)"
    by (induction xs) (auto simp: notna_def split: option.splits)
  have 3: "\<And>a b. \<not> notna (k b) \<Longrightarrow> cell_ge (k a) (k b)"
    by (auto simp: notna_def split: option.splits)
  show ?thesis unfolding sort_values_desc_def
    by (simp add: sorted_wrt_append 1 2 3)
qed

lemma sorted_wrt_partition:
  "sorted_wrt R xs \<Longrightarrow> (\<And>a b. a \<in> set xs \<Longrightarrow> b \<in> set xs \<Longrightarrow> R a b \<Longrightarrow> P b \<Longrightarrow> P a)
     \<Longrightarrow> xs = filter P xs @ filter (\<lambda>x. \<not> P x) xs"
proof (induction xs)
  case Nil show ?case by simp
next
  case (Cons x xs)
  have IH: "xs = filter P xs @ filter (\<lambda>x. \<not> P x) xs"
  proof (rule Cons.IH)
    show "sorted_wrt R xs" using Cons.prems(1) by simp
    fix a b assume "a \<in> set xs" "b \<in> set xs" "R a b" "P b"
    then show "P a" using Cons.prems(2)[of a b] by simp
  qed
  show ?case
  proof (cases "P x")
    case True
    then show ?thesis using IH by simp
  next
    case False
    have "\<forall>y \<in> set xs. \<not> P y"
    proof
      fix y assume y: "y \<in> set xs"
      with Cons.prems(1) have "R x y" by simp
      with Cons.prems(2)[of x y] y False show "\<not> P y" by auto
    qed
    then have "filter P xs = []" "filter (\<lambda>x. \<not> P x) xs = xs"
      by (simp_all add: filter_empty_conv)
    with False show ?thesis by simp
  qed
qed

lemma sort_file_sorted:
  "files w p = Some df \<Longrightarrow> guess_date_col parse df = Some col \<Longrightarrow> col \<noteq> [] \<Longrightarrow>
     files (sort_file parse na p w) p
       = Some ((normalize_column parse na df col)
            \<lparr>rows := sort_values_desc (\<lambda>r. r col) (rows (normalize_column parse na df col))\<rparr>)
     \<and> stdout (sort_file parse na p w) = stdout w @ [Sorted_by p col]"
  by (simp add: sort_file_def Let_def print_def to_csv_def)

lemma parsed_date_valid:
  assumes "\<forall>s d. parse (column df col) s = Some d \<longrightarrow> valid_date d"
    and "parsed_date parse df col r = Some d"
  shows "valid_date d"
proof -
  from assms(2) obtain s where "parse (column df col) s = Some d"
    by (cases "r col") (simp_all add: parsed_date_def)
  with assms(1) show ?thesis by blast
qed

lemma date_key_None [simp]: "parsed_date parse df col r = None \<Longrightarrow> date_key parse na df col r = na"
  by (simp add: date_key_def str_cell_def)

lemma date_key_Some [simp]:
  "parsed_date parse df col r = Some d \<Longrightarrow> date_key parse na df col r = Some (str_date d)"
  by (simp add: date_key_def str_cell_def)

lemma date_key_NaT_iff:
  assumes "\<forall>s d. parse (column df col) s = Some d \<longrightarrow> valid_date d"
  shows "date_key parse (Some ''NaT'') df col r = Some ''NaT'' \<longleftrightarrow> parsed_date parse df col r = None"
proof (cases "parsed_date parse df col r")
  case None
  then show ?thesis by simp
next
  case (Some d)
  with assms have "valid_date d" by (rule parsed_date_valid)
  then have "str_date d \<noteq> ''NaT''" using str_date_less_NaT[of d] by auto
  then show ?thesis using Some by simp
qed

lemma date_key_missing_iff:
  "date_key parse None df col r = None \<longleftrightarrow> parsed_date parse df col r = None"
  by (cases "parsed_date parse df col r") simp_all

lemma filter_normalized:
  "filter (\<lambda>r. r col = v) (map (\<lambda>r. r(col := date_key parse na df col r)) xs)
     = map (\<lambda>r. r(col := v)) (filter (\<lambda>r. date_key parse na df col r = v) xs)"
  by (induction xs) auto

lemma length_filter_mono:
  "(\<And>x. P x \<Longrightarrow> Q x) \<Longrightarrow> length (filter P xs) \<le> length (filter Q xs)"
  by (induction xs) auto

lemma read_date_valid: "read_date s = Some d \<Longrightarrow> valid_date d"
  by (auto simp: read_date_def read_iso_def read_us_def Let_def split: option.splits if_splits)

lemma first_layout_valid: "first_layout col s = Some d \<Longrightarrow> valid_date d"
proof -
  assume a: "first_layout col s = Some d"
  have i: "read_iso s = Some d \<Longrightarrow> valid_date d"
    using read_date_valid[of s d] by (simp add: read_date_def)
  have u: "read_us s = Some d \<Longrightarrow> valid_date d"
    by (auto simp: read_us_def Let_def split: if_splits)
  from a show ?thesis
    using i u read_date_valid[of s d]
    by (auto simp: first_layout_def split: option.splits if_splits)
qed

text \<open>
  C8. The sorter performs a stable sort. The file that \<open>sort_file\<close> writes has the rows
  of the file read, each with its date cell replaced by its key, in descending order of
  the key with a missing key last; and the rows with a given key are the rows of the file
  read that get this key, in the order in which they were read.
\<close>

theorem sort_file_stable:
  assumes "files w p = Some df" "guess_date_col parse df = Some col" "col \<noteq> []"
  shows "\<exists>out. files (sort_file parse na p w) p = Some out
    \<and> length (rows out) = length (rows df)
    \<and> set (rows out) = (\<lambda>r. r(col := date_key parse na df col r)) ` set (rows df)
    \<and> sorted_wrt (\<lambda>a b. cell_ge (a col) (b col)) (rows out)
    \<and> filter (\<lambda>r. r col = v) (rows out)
        = map (\<lambda>r. r(col := v)) (filter (\<lambda>r. date_key parse na df col r = v) (rows df))"
proof -
  let ?N = "normalize_column parse na df col"
  let ?out = "?N\<lparr>rows := sort_values_desc (\<lambda>r. r col) (rows ?N)\<rparr>"
  have f: "files (sort_file parse na p w) p = Some ?out"
    using sort_file_sorted[OF assms] by simp
  have l: "length (rows ?out) = length (rows df)"
    by (simp add: length_sort_values_desc normalize_column_rows)
  have s: "set (rows ?out) = (\<lambda>r. r(col := date_key parse na df col r)) ` set (rows df)"
    by (simp add: set_sort_values_desc normalize_column_rows)
  have o: "sorted_wrt (\<lambda>a b. cell_ge (a col) (b col)) (rows ?out)"
    using sorted_sort_values_desc[of "\<lambda>r. r col" "rows ?N"] by simp
  have "filter (\<lambda>r. r col = v) (rows ?out) = filter (\<lambda>r. r col = v) (rows ?N)"
    by (simp add: sort_values_desc_stable)
  also have "\<dots> = map (\<lambda>r. r(col := v)) (filter (\<lambda>r. date_key parse na df col r = v) (rows df))"
    by (simp only: normalize_column_rows filter_normalized)
  finally have r: "files (sort_file parse na p w) p = Some ?out
    \<and> length (rows ?out) = length (rows df)
    \<and> set (rows ?out) = (\<lambda>r. r(col := date_key parse na df col r)) ` set (rows df)
    \<and> sorted_wrt (\<lambda>a b. cell_ge (a col) (b col)) (rows ?out)
    \<and> filter (\<lambda>r. r col = v) (rows ?out)
        = map (\<lambda>r. r(col := v)) (filter (\<lambda>r. date_key parse na df col r = v) (rows df))"
    using f l s o by (intro conjI)
  show ?thesis by (rule exI, rule r)
qed

text \<open>
  The first and the last row of the example file are draws of the same day: in the
  sorted file they are one after the other, the first before the last, after the draw of
  the later day.
\<close>

theorem sort_file_stable_witness:
  "\<exists>out. files (sort_file first_layout None ''data/powerball.csv'' example_world)
            ''data/powerball.csv'' = Some out
     \<and> length (rows out) = 4
     \<and> sorted_wrt (\<lambda>a b. cell_ge (a ''Draw Date'') (b ''Draw Date'')) (rows out)
     \<and> map (\<lambda>r. r ''Winning Numbers'')
          (filter (\<lambda>r. r ''Draw Date'' = Some ''2024-01-03'') (rows out))
        = [Some ''10 20 30 40 50 01'', Some ''11 12 13 14 15 16'']"
proof -
  let ?P = "first_layout"
  have 1: "files example_world ''data/powerball.csv'' = Some draws_frame"
    by (simp add: example_world_def)
  have 2: "guess_date_col ?P draws_frame = Some ''Draw Date''" by code_simp
  have 3: "''Draw Date'' \<noteq> []" by simp
  have 4: "length (rows draws_frame) = 4" by code_simp
  have 5: "map (\<lambda>r. r ''Winning Numbers'') (map (\<lambda>r. r(''Draw Date'' := Some ''2024-01-03''))
      (filter (\<lambda>r. date_key ?P None draws_frame ''Draw Date'' r = Some ''2024-01-03'')
         (rows draws_frame)))
      = [Some ''10 20 30 40 50 01'', Some ''11 12 13 14 15 16'']"
    by code_simp
  from sort_file_stable[OF 1 2 3, of None "Some ''2024-01-03''"] obtain out where
    o: "files (sort_file ?P None ''data/powerball.csv'' example_world) ''data/powerball.csv''
         = Some out"
      "length (rows out) = length (rows draws_frame)"
      "sorted_wrt (\<lambda>a b. cell_ge (a ''Draw Date'') (b ''Draw Date'')) (rows out)"
      "filter (\<lambda>r. r ''Draw Date'' = Some ''2024-01-03'') (rows out)
        = map (\<lambda>r. r(''Draw Date'' := Some ''2024-01-03''))
           (filter (\<lambda>r. date_key ?P None draws_frame ''Draw Date'' r = Some ''2024-01-03'')
              (rows draws_frame))"
    by (elim exE conjE)
  have l: "length (rows out) = 4" using o(2) unfolding 4 .
  have t: "map (\<lambda>r. r ''Winning Numbers'')
          (filter (\<lambda>r. r ''Draw Date'' = Some ''2024-01-03'') (rows out))
        = [Some ''10 20 30 40 50 01'', Some ''11 12 13 14 15 16'']"
    unfolding o(4) by (rule 5)
  show ?thesis
    by (intro exI[of _ out] conjI, rule o(1), rule l, rule o(3), rule t)
qed

text \<open>
  C5 (as amended). A value of the date column that pandas does not read as a date
  becomes what \<open>.astype(str)\<close> makes of the missing date, and is sorted as that. The
  sorter sorts in descending order only. With pandas 3 the value is missing: the rows of
  such values come last, after the rows of all dates. With a pandas before 3 it is the
  text "NaT", which is greater than the text of every date: the rows of such values come
  first, before the rows of all dates. In both cases they keep the order in which they
  were read, the rest of the file is in descending order of the date, and nothing is an
  error.
\<close>

theorem sort_file_unparseable_place:
  assumes "files w p = Some df" "guess_date_col parse df = Some col" "col \<noteq> []"
    and "\<forall>s d. parse (column df col) s = Some d \<longrightarrow> valid_date d"
  shows "\<exists>out. files (sort_file parse na p w) p = Some out
    \<and> sorted_wrt (\<lambda>a b. cell_ge (a col) (b col)) (rows out)
    \<and> (na = Some ''NaT'' \<longrightarrow>
          rows out = map (\<lambda>r. r(col := Some ''NaT''))
                       (filter (\<lambda>r. parsed_date parse df col r = None) (rows df))
                     @ filter (\<lambda>r. r col \<noteq> Some ''NaT'') (rows out)
          \<and> (\<forall>r \<in> set (rows out). r col = Some ''NaT''
                \<or> (\<exists>d. valid_date d \<and> r col = Some (str_date d) \<and> str_date d < ''NaT'')))
    \<and> (na = None \<longrightarrow>
          rows out = filter (\<lambda>r. r col \<noteq> None) (rows out)
                     @ map (\<lambda>r. r(col := None))
                         (filter (\<lambda>r. parsed_date parse df col r = None) (rows df))
          \<and> (\<forall>r \<in> set (rows out). r col = None
                \<or> (\<exists>d. valid_date d \<and> r col = Some (str_date d))))"
proof -
  let ?N = "normalize_column parse na df col"
  let ?out = "?N\<lparr>rows := sort_values_desc (\<lambda>r. r col) (rows ?N)\<rparr>"
  let ?un = "\<lambda>r. parsed_date parse df col r = None"
  have f: "files (sort_file parse na p w) p = Some ?out"
    using sort_file_sorted[OF assms(1-3)] by simp
  have srt: "sorted_wrt (\<lambda>a b. cell_ge (a col) (b col)) (rows ?out)"
    using sorted_sort_values_desc[of "\<lambda>r. r col" "rows ?N"] by simp
  have cell: "r col = na \<or> (\<exists>d. valid_date d \<and> r col = Some (str_date d) \<and> str_date d < ''NaT'')"
    if "r \<in> set (rows ?out)" for r
  proof -
    from that obtain r0 where r0: "r = r0(col := date_key parse na df col r0)"
      by (auto simp: set_sort_values_desc normalize_column_rows)
    show ?thesis
    proof (cases "parsed_date parse df col r0")
      case None
      then show ?thesis by (simp add: r0)
    next
      case (Some d)
      with assms(4) have "valid_date d" by (rule parsed_date_valid)
      then have "valid_date d \<and> r col = Some (str_date d) \<and> str_date d < ''NaT''"
        using Some str_date_less_NaT[of d] by (simp add: r0)
      then show ?thesis by blast
    qed
  qed
  have first: "rows ?out = map (\<lambda>r. r(col := Some ''NaT'')) (filter ?un (rows df))
                     @ filter (\<lambda>r. r col \<noteq> Some ''NaT'') (rows ?out)
          \<and> (\<forall>r \<in> set (rows ?out). r col = Some ''NaT''
                \<or> (\<exists>d. valid_date d \<and> r col = Some (str_date d) \<and> str_date d < ''NaT''))"
    if na: "na = Some ''NaT''"
  proof
    let ?nat = "\<lambda>r :: row. r col = Some ''NaT''"
    have "rows ?out = filter ?nat (rows ?out) @ filter (\<lambda>r. \<not> ?nat r) (rows ?out)"
    proof (rule sorted_wrt_partition[OF srt])
      fix a b assume a: "a \<in> set (rows ?out)" and b: "b \<in> set (rows ?out)"
        and ge: "cell_ge (a col) (b col)" and nb: "?nat b"
      from cell[OF a] show "?nat a"
      proof
        assume "a col = na"
        then show ?thesis by (simp add: na)
      next
        assume "\<exists>d. valid_date d \<and> a col = Some (str_date d) \<and> str_date d < ''NaT''"
        then obtain d where "a col = Some (str_date d)" "str_date d < ''NaT''" by blast
        with ge nb show ?thesis by simp
      qed
    qed
    moreover have "filter ?nat (rows ?out) = map (\<lambda>r. r(col := Some ''NaT'')) (filter ?un (rows df))"
    proof -
      have "filter ?nat (rows ?out) = filter ?nat (rows ?N)"
        by (simp add: sort_values_desc_stable)
      also have "\<dots> = map (\<lambda>r. r(col := Some ''NaT''))
          (filter (\<lambda>r. date_key parse na df col r = Some ''NaT'') (rows df))"
        by (simp only: normalize_column_rows filter_normalized)
      finally show ?thesis
        unfolding na by (simp only: date_key_NaT_iff[of parse df col, OF assms(4)])
    qed
    ultimately show "rows ?out = map (\<lambda>r. r(col := Some ''NaT'')) (filter ?un (rows df))
                     @ filter (\<lambda>r. r col \<noteq> Some ''NaT'') (rows ?out)"
      by simp
    show "\<forall>r \<in> set (rows ?out). r col = Some ''NaT''
                \<or> (\<exists>d. valid_date d \<and> r col = Some (str_date d) \<and> str_date d < ''NaT'')"
      using cell unfolding na by (intro ballI)
  qed
  have last: "rows ?out = filter (\<lambda>r. r col \<noteq> None) (rows ?out)
                     @ map (\<lambda>r. r(col := None)) (filter ?un (rows df))
          \<and> (\<forall>r \<in> set (rows ?out). r col = None
                \<or> (\<exists>d. valid_date d \<and> r col = Some (str_date d)))"
    if na: "na = None"
  proof
    let ?A = "rev (sort_key (\<lambda>r. the (r col)) (rev (filter (\<lambda>r. notna (r col)) (rows ?N))))"
    let ?B = "filter (\<lambda>r. \<not> notna (r col)) (rows ?N)"
    have o: "rows ?out = ?A @ ?B" by (simp add: sort_values_desc_def)
    have "\<forall>r \<in> set ?A. r col \<noteq> None" by (auto simp: notna_def split: option.splits)
    then have fA: "filter (\<lambda>r. r col \<noteq> None) ?A = ?A" by (simp only: filter_True)
    have fB: "filter (\<lambda>r. r col \<noteq> None) ?B = []"
      by (auto simp: filter_empty_conv notna_def split: option.splits)
    have "?B = filter (\<lambda>r. r col = None) (rows ?N)"
      by (rule filter_cong) (auto simp: notna_def split: option.splits)
    also have "\<dots> = map (\<lambda>r. r(col := None))
        (filter (\<lambda>r. date_key parse na df col r = None) (rows df))"
      by (simp only: normalize_column_rows filter_normalized)
    finally have B: "?B = map (\<lambda>r. r(col := None)) (filter ?un (rows df))"
      unfolding na by (simp only: date_key_missing_iff)
    have "filter (\<lambda>r. r col \<noteq> None) (rows ?out) = ?A"
      unfolding o filter_append fA fB by simp
    with o B show "rows ?out = filter (\<lambda>r. r col \<noteq> None) (rows ?out)
                     @ map (\<lambda>r. r(col := None)) (filter ?un (rows df))"
      by simp
    show "\<forall>r \<in> set (rows ?out). r col = None
                \<or> (\<exists>d. valid_date d \<and> r col = Some (str_date d))"
    proof
      fix r assume "r \<in> set (rows ?out)"
      from cell[OF this] show "r col = None \<or> (\<exists>d. valid_date d \<and> r col = Some (str_date d))"
        unfolding na by blast
    qed
  qed
  have r: "files (sort_file parse na p w) p = Some ?out
    \<and> sorted_wrt (\<lambda>a b. cell_ge (a col) (b col)) (rows ?out)
    \<and> (na = Some ''NaT'' \<longrightarrow>
          rows ?out = map (\<lambda>r. r(col := Some ''NaT'')) (filter ?un (rows df))
                     @ filter (\<lambda>r. r col \<noteq> Some ''NaT'') (rows ?out)
          \<and> (\<forall>r \<in> set (rows ?out). r col = Some ''NaT''
                \<or> (\<exists>d. valid_date d \<and> r col = Some (str_date d) \<and> str_date d < ''NaT'')))
    \<and> (na = None \<longrightarrow>
          rows ?out = filter (\<lambda>r. r col \<noteq> None) (rows ?out)
                     @ map (\<lambda>r. r(col := None)) (filter ?un (rows df))
          \<and> (\<forall>r \<in> set (rows ?out). r col = None
                \<or> (\<exists>d. valid_date d \<and> r col = Some (str_date d))))"
    by (intro conjI, rule f, rule srt, (intro impI, erule first), (intro impI, erule last))
  show ?thesis by (rule exI, rule r)
qed

text \<open>
  In the example file the second row has no date in its date cell. With pandas 3 it is
  the last row of the sorted file; with a pandas before 3 it is the first.
\<close>

theorem sort_file_unparseable_place_witness:
  "(\<exists>out rest. files (sort_file first_layout None ''data/powerball.csv'' example_world)
            ''data/powerball.csv'' = Some out
     \<and> map (\<lambda>r. (r ''Draw Date'', r ''Winning Numbers'')) (rows out)
         = rest @ [(None, Some ''none'')])
   \<and> (\<exists>out rest. files (sort_file first_layout (Some ''NaT'') ''data/powerball.csv'' example_world)
            ''data/powerball.csv'' = Some out
     \<and> map (\<lambda>r. (r ''Draw Date'', r ''Winning Numbers'')) (rows out)
         = (Some ''NaT'', Some ''none'') # rest)"
proof
  let ?P = "first_layout"
  let ?g = "\<lambda>r :: row. (r ''Draw Date'', r ''Winning Numbers'')"
  let ?un = "\<lambda>r. parsed_date ?P draws_frame ''Draw Date'' r = None"
  have 1: "files example_world ''data/powerball.csv'' = Some draws_frame"
    by (simp add: example_world_def)
  have 2: "guess_date_col ?P draws_frame = Some ''Draw Date''" by code_simp
  have 3: "''Draw Date'' \<noteq> []" by simp
  have 4: "\<forall>s d. ?P (column draws_frame ''Draw Date'') s = Some d \<longrightarrow> valid_date d"
    using first_layout_valid by blast
  have 5: "map ?g (map (\<lambda>r. r(''Draw Date'' := None)) (filter ?un (rows draws_frame)))
      = [(None, Some ''none'')]"
    by code_simp
  have 6: "map ?g (map (\<lambda>r. r(''Draw Date'' := Some ''NaT'')) (filter ?un (rows draws_frame)))
      = [(Some ''NaT'', Some ''none'')]"
    by code_simp
  note t = sort_file_unparseable_place[OF 1 2 3 4]
  {
    from t[of None] obtain out where
      o1: "files (sort_file ?P None ''data/powerball.csv'' example_world) ''data/powerball.csv''
            = Some out"
      and o2: "None = (None :: cell) \<longrightarrow>
          rows out = filter (\<lambda>r. r ''Draw Date'' \<noteq> None) (rows out)
                     @ map (\<lambda>r. r(''Draw Date'' := None)) (filter ?un (rows draws_frame))
          \<and> (\<forall>r \<in> set (rows out). r ''Draw Date'' = None
                \<or> (\<exists>d. valid_date d \<and> r ''Draw Date'' = Some (str_date d)))"
      by (elim exE conjE)
    from o2 have o3: "rows out = filter (\<lambda>r. r ''Draw Date'' \<noteq> None) (rows out)
                     @ map (\<lambda>r. r(''Draw Date'' := None)) (filter ?un (rows draws_frame))"
      by simp
    have "map ?g (rows out) = map ?g (filter (\<lambda>r. r ''Draw Date'' \<noteq> None) (rows out)
                     @ map (\<lambda>r. r(''Draw Date'' := None)) (filter ?un (rows draws_frame)))"
      by (rule arg_cong[OF o3])
    also have "\<dots> = map ?g (filter (\<lambda>r. r ''Draw Date'' \<noteq> None) (rows out))
        @ [(None, Some ''none'')]"
      by (simp only: map_append 5)
    finally have r: "files (sort_file ?P None ''data/powerball.csv'' example_world)
          ''data/powerball.csv'' = Some out
       \<and> map ?g (rows out) = map ?g (filter (\<lambda>r. r ''Draw Date'' \<noteq> None) (rows out))
          @ [(None, Some ''none'')]"
      using o1 by (intro conjI)
    show "\<exists>out rest. files (sort_file ?P None ''data/powerball.csv'' example_world)
            ''data/powerball.csv'' = Some out
       \<and> map ?g (rows out) = rest @ [(None, Some ''none'')]"
      by (rule exI, rule exI, rule r)
  }
  {
    from t[of "Some ''NaT''"] obtain out where
      o1: "files (sort_file ?P (Some ''NaT'') ''data/powerball.csv'' example_world)
            ''data/powerball.csv'' = Some out"
      and o2: "Some ''NaT'' = Some ''NaT'' \<longrightarrow>
          rows out = map (\<lambda>r. r(''Draw Date'' := Some ''NaT'')) (filter ?un (rows draws_frame))
                     @ filter (\<lambda>r. r ''Draw Date'' \<noteq> Some ''NaT'') (rows out)
          \<and> (\<forall>r \<in> set (rows out). r ''Draw Date'' = Some ''NaT''
                \<or> (\<exists>d. valid_date d \<and> r ''Draw Date'' = Some (str_date d)
                      \<and> str_date d < ''NaT''))"
      by (elim exE conjE)
    from o2 have o3: "rows out
        = map (\<lambda>r. r(''Draw Date'' := Some ''NaT'')) (filter ?un (rows draws_frame))
          @ filter (\<lambda>r. r ''Draw Date'' \<noteq> Some ''NaT'') (rows out)"
      by simp
    have "map ?g (rows out)
        = map ?g (map (\<lambda>r. r(''Draw Date'' := Some ''NaT'')) (filter ?un (rows draws_frame))
                  @ filter (\<lambda>r. r ''Draw Date'' \<noteq> Some ''NaT'') (rows out))"
      by (rule arg_cong[OF o3])
    also have "\<dots> = (Some ''NaT'', Some ''none'')
        # map ?g (filter (\<lambda>r. r ''Draw Date'' \<noteq> Some ''NaT'') (rows out))"
      by (simp only: map_append 6 append_Cons append_Nil)
    finally have r: "files (sort_file ?P (Some ''NaT'') ''data/powerball.csv'' example_world)
          ''data/powerball.csv'' = Some out
       \<and> map ?g (rows out) = (Some ''NaT'', Some ''none'')
          # map ?g (filter (\<lambda>r. r ''Draw Date'' \<noteq> Some ''NaT'') (rows out))"
      using o1 by (intro conjI)
    show "\<exists>out rest. files (sort_file ?P (Some ''NaT'') ''data/powerball.csv'' example_world)
            ''data/powerball.csv'' = Some out
       \<and> map ?g (rows out) = (Some ''NaT'', Some ''none'') # rest"
      by (rule exI, rule exI, rule r)
  }
qed

text \<open>
  C5 as stated fails with a pandas before 3. The cell that is not a date is written as
  "NaT", not as the empty text, and its row is before the rows of all dates in the
  descending order, not after them.
\<close>

theorem sort_file_unparseable_counterexample:
  "map_option cells
     (files (sort_file first_layout (Some ''NaT'') ''data/powerball.csv'' example_world)
        ''data/powerball.csv'')
   = Some [[Some ''NaT'', Some ''none''],
           [Some ''2024-01-06'', Some ''01 02 03 04 05 06''],
           [Some ''2024-01-03'', Some ''10 20 30 40 50 01''],
           [Some ''2024-01-03'', Some ''11 12 13 14 15 16'']]"
  by code_simp

text \<open>
  C10 (as amended). In every file that the sorter rewrites, a row whose date cell pandas
  does not read as a date (a missing cell too) is written with what \<open>.astype(str)\<close> makes
  of the missing date in that cell: the text "NaT" with a pandas before 3, and with
  pandas 3 the missing value, which is an empty field of the file. The rows written are
  the rows read with the date cell replaced by its key, and the file has at least as many
  such cells as cells were not read.
\<close>

theorem sort_file_writes_missing_date:
  assumes "files w p = Some df" "guess_date_col parse df = Some col" "col \<noteq> []"
  shows "\<exists>out. files (sort_file parse na p w) p = Some out
    \<and> set (rows out) = (\<lambda>r. r(col := date_key parse na df col r)) ` set (rows df)
    \<and> (\<forall>r. parsed_date parse df col r = None \<longrightarrow> date_key parse na df col r = na)
    \<and> (\<forall>r \<in> set (rows df). parsed_date parse df col r = None
          \<longrightarrow> r(col := na) \<in> set (rows out))
    \<and> length (filter (\<lambda>r. parsed_date parse df col r = None) (rows df))
        \<le> length (filter (\<lambda>r. r col = na) (rows out))"
proof -
  let ?N = "normalize_column parse na df col"
  let ?out = "?N\<lparr>rows := sort_values_desc (\<lambda>r. r col) (rows ?N)\<rparr>"
  have f: "files (sort_file parse na p w) p = Some ?out"
    using sort_file_sorted[OF assms] by simp
  have s: "set (rows ?out) = (\<lambda>r. r(col := date_key parse na df col r)) ` set (rows df)"
    by (simp add: set_sort_values_desc normalize_column_rows)
  have k: "\<forall>r. parsed_date parse df col r = None \<longrightarrow> date_key parse na df col r = na"
    by simp
  have m: "\<forall>r \<in> set (rows df). parsed_date parse df col r = None
          \<longrightarrow> r(col := na) \<in> set (rows ?out)"
  proof (intro ballI impI)
    fix r assume r: "r \<in> set (rows df)" and "parsed_date parse df col r = None"
    then have "r(col := na) = (\<lambda>r. r(col := date_key parse na df col r)) r" by simp
    then show "r(col := na) \<in> set (rows ?out)"
      unfolding s using r by (simp only: image_eqI)
  qed
  have "filter (\<lambda>r. r col = na) (rows ?out) = filter (\<lambda>r. r col = na) (rows ?N)"
    by (simp add: sort_values_desc_stable)
  also have "\<dots> = map (\<lambda>r. r(col := na))
      (filter (\<lambda>r. date_key parse na df col r = na) (rows df))"
    by (simp only: normalize_column_rows filter_normalized)
  finally have "length (filter (\<lambda>r. r col = na) (rows ?out))
      = length (filter (\<lambda>r. date_key parse na df col r = na) (rows df))"
    by simp
  moreover have "length (filter (\<lambda>r. parsed_date parse df col r = None) (rows df))
      \<le> length (filter (\<lambda>r. date_key parse na df col r = na) (rows df))"
    by (intro length_filter_mono) simp
  ultimately have c: "length (filter (\<lambda>r. parsed_date parse df col r = None) (rows df))
        \<le> length (filter (\<lambda>r. r col = na) (rows ?out))"
    by simp
  have r: "files (sort_file parse na p w) p = Some ?out
    \<and> set (rows ?out) = (\<lambda>r. r(col := date_key parse na df col r)) ` set (rows df)
    \<and> (\<forall>r. parsed_date parse df col r = None \<longrightarrow> date_key parse na df col r = na)
    \<and> (\<forall>r \<in> set (rows df). parsed_date parse df col r = None
          \<longrightarrow> r(col := na) \<in> set (rows ?out))
    \<and> length (filter (\<lambda>r. parsed_date parse df col r = None) (rows df))
        \<le> length (filter (\<lambda>r. r col = na) (rows ?out))"
    by (intro conjI, rule f, rule s, rule k, rule m, rule c)
  show ?thesis by (rule exI, rule r)
qed

text \<open>
  With a pandas before 3, the row of the example file whose date cell is "to be drawn"
  is in the sorted file with "NaT" in that cell.
\<close>

theorem sort_file_writes_missing_date_witness:
  "\<exists>out. files (sort_file first_layout (Some ''NaT'') ''data/powerball.csv'' example_world)
            ''data/powerball.csv'' = Some out
     \<and> (map_of [(''Draw Date'', ''to be drawn''), (''Winning Numbers'', ''none'')])
          (''Draw Date'' := Some ''NaT'') \<in> set (rows out)
     \<and> 1 \<le> length (filter (\<lambda>r. r ''Draw Date'' = Some ''NaT'') (rows out))"
proof -
  let ?P = "first_layout"
  let ?r = "map_of [(''Draw Date'', ''to be drawn''), (''Winning Numbers'', ''none'')]"
  have 1: "files example_world ''data/powerball.csv'' = Some draws_frame"
    by (simp add: example_world_def)
  have 2: "guess_date_col ?P draws_frame = Some ''Draw Date''" by code_simp
  have 3: "''Draw Date'' \<noteq> []" by simp
  have a: "?r \<in> set (rows draws_frame)" by (simp add: draws_frame_def)
  have b: "parsed_date ?P draws_frame ''Draw Date'' ?r = None" by code_simp
  have d: "length (filter (\<lambda>r. parsed_date ?P draws_frame ''Draw Date'' r = None)
      (rows draws_frame)) = 1"
    by code_simp
  from sort_file_writes_missing_date[OF 1 2 3, of "Some ''NaT''"] obtain out where
    o1: "files (sort_file ?P (Some ''NaT'') ''data/powerball.csv'' example_world)
          ''data/powerball.csv'' = Some out"
    and o4: "\<forall>r \<in> set (rows draws_frame). parsed_date ?P draws_frame ''Draw Date'' r = None
          \<longrightarrow> r(''Draw Date'' := Some ''NaT'') \<in> set (rows out)"
    and o5: "length (filter (\<lambda>r. parsed_date ?P draws_frame ''Draw Date'' r = None)
          (rows draws_frame))
        \<le> length (filter (\<lambda>r. r ''Draw Date'' = Some ''NaT'') (rows out))"
    by (elim exE conjE)
  have c: "?r(''Draw Date'' := Some ''NaT'') \<in> set (rows out)"
    by (rule o4[rule_format, OF a b])
  have e: "1 \<le> length (filter (\<lambda>r. r ''Draw Date'' = Some ''NaT'') (rows out))"
    using o5 unfolding d .
  have r: "files (sort_file ?P (Some ''NaT'') ''data/powerball.csv'' example_world)
        ''data/powerball.csv'' = Some out
     \<and> ?r(''Draw Date'' := Some ''NaT'') \<in> set (rows out)
     \<and> 1 \<le> length (filter (\<lambda>r. r ''Draw Date'' = Some ''NaT'') (rows out))"
    by (intro conjI, rule o1, rule c, rule e)
  show ?thesis by (rule exI, rule r)
qed

text \<open>
  C10 as stated fails with pandas 3: the date cell that is not a date is written as an
  empty field, and no cell of the file is "NaT".
\<close>

theorem sort_file_writes_empty_counterexample:
  "map_option cells
     (files (sort_file first_layout None ''data/powerball.csv'' example_world)
        ''data/powerball.csv'')
   = Some [[Some ''2024-01-06'', Some ''01 02 03 04 05 06''],
           [Some ''2024-01-03'', Some ''10 20 30 40 50 01''],
           [Some ''2024-01-03'', Some ''11 12 13 14 15 16''],
           [None, Some ''none'']]"
  by code_simp

section \<open>The updater's early exits and its first request\<close>

lemma pick_None_iff: "pick cols opts = None \<longleftrightarrow> set opts \<inter> set cols = {}"
  by (induction opts) auto



text \<open>
  C6. The updater exits with code 2 when the file does not exist, and with code 3 when
  none of the four names it looks for is a header of the file; in both cases no file is
  written and no request is sent.
\<close>

theorem updater_exit_codes:
  "(files w p = None \<longrightarrow>
      exit_code (fst (updater_main parse na get p w)) = 2
      \<and> fst (updater_main parse na get p w) = Exit 2
      \<and> files (snd (updater_main parse na get p w)) = files w
      \<and> requests (snd (updater_main parse na get p w)) = requests w)
   \<and> (files w p = Some df
        \<and> set [''Draw Date'', ''draw_date'', ''Draw date'', ''date''] \<inter> set (columns df) = {} \<longrightarrow>
      exit_code (fst (updater_main parse na get p w)) = 3
      \<and> fst (updater_main parse na get p w) = Exit 3
      \<and> files (snd (updater_main parse na get p w)) = files w
      \<and> requests (snd (updater_main parse na get p w)) = requests w)"
proof (intro conjI impI)
  assume a: "files w p = None"
  then have u: "updater_main parse na get p w = (Exit 2, eprint (Csv_not_found p) w)"
    by (simp add: updater_main_def)
  show "exit_code (fst (updater_main parse na get p w)) = 2"
    "fst (updater_main parse na get p w) = Exit 2"
    "files (snd (updater_main parse na get p w)) = files w"
    "requests (snd (updater_main parse na get p w)) = requests w"
    unfolding u by (simp_all add: exit_code_def eprint_def)
next
  assume a: "files w p = Some df
        \<and> set [''Draw Date'', ''draw_date'', ''Draw date'', ''date''] \<inter> set (columns df) = {}"
  then have "pick (columns df) [''Draw Date'', ''draw_date'', ''Draw date'', ''date''] = None"
    by (simp only: pick_None_iff)
  with a have u: "updater_main parse na get p w = (Exit 3, eprint No_draw_date_column w)"
    by (simp add: updater_main_def Let_def)
  show "exit_code (fst (updater_main parse na get p w)) = 3"
    "fst (updater_main parse na get p w) = Exit 3"
    "files (snd (updater_main parse na get p w)) = files w"
    "requests (snd (updater_main parse na get p w)) = requests w"
    unfolding u by (simp_all add: exit_code_def eprint_def)
qed

text \<open>
  The example has no file "gone.csv", and its file "notes.csv" has the headers "Game"
  and "Note".
\<close>

theorem updater_exit_codes_witness:
  "fst (updater_main first_layout None (\<lambda>since. None) ''gone.csv'' example_world) = Exit 2
   \<and> files (snd (updater_main first_layout None (\<lambda>since. None) ''gone.csv'' example_world))
       = files example_world
   \<and> fst (updater_main first_layout None (\<lambda>since. None) ''notes.csv'' example_world) = Exit 3
   \<and> files (snd (updater_main first_layout None (\<lambda>since. None) ''notes.csv'' example_world))
       = files example_world"
proof -
  let ?P = "first_layout"
  let ?G = "\<lambda>since :: string. None :: json list option"
  have 1: "files example_world ''gone.csv'' = None" by (simp add: example_world_def)
  have 2: "files example_world ''notes.csv'' = Some text_frame
      \<and> set [''Draw Date'', ''draw_date'', ''Draw date'', ''date''] \<inter> set (columns text_frame) = {}"
    by (simp add: example_world_def text_frame_def)
  note t1 = updater_exit_codes[where w = example_world and p = "''gone.csv''" and parse = ?P
      and na = None and get = ?G]
  note t2 = updater_exit_codes[where w = example_world and p = "''notes.csv''" and parse = ?P
      and na = None and get = ?G and df = text_frame]
  from t1[THEN conjunct1, rule_format, OF 1] t2[THEN conjunct2, rule_format, OF 2]
  show ?thesis by (intro conjI) (elim conjE, assumption)+
qed



section \<open>The sorter's run over its files\<close>

lemma sort_file_cases:
  obtains (missing) "files w q = None" "sort_file parse na q w = print (Skip_not_found q) w"
  | (no_column) df where "files w q = Some df"
      "guess_date_col parse df = None \<or> guess_date_col parse df = Some []"
      "sort_file parse na q w = print (Skip_no_date_column q (columns df)) w"
  | (sorted) df col out where "files w q = Some df" "guess_date_col parse df = Some col"
      "col \<noteq> []" "sort_file parse na q w = print (Sorted_by q col) (to_csv q out w)"
proof (cases "files w q")
  case None
  then have "sort_file parse na q w = print (Skip_not_found q) w" by (simp add: sort_file_def)
  with None show ?thesis by (rule missing)
next
  case (Some df)
  show ?thesis
  proof (cases "guess_date_col parse df")
    case None
    then have "sort_file parse na q w = print (Skip_no_date_column q (columns df)) w"
      using Some by (simp add: sort_file_def)
    with Some None show ?thesis by (intro no_column[of df]) simp_all
  next
    case g: (Some col)
    show ?thesis
    proof (cases "col = []")
      case True
      then have "sort_file parse na q w = print (Skip_no_date_column q (columns df)) w"
        using Some g by (simp add: sort_file_def)
      with Some g True show ?thesis by (intro no_column[of df]) simp_all
    next
      case False
      then have "sort_file parse na q w = print (Sorted_by q col)
          (to_csv q ((normalize_column parse na df col)
              \<lparr>rows := sort_values_desc (\<lambda>r. r col) (rows (normalize_column parse na df col))\<rparr>) w)"
        using Some g by (simp add: sort_file_def Let_def)
      with Some g False show ?thesis by (rule sorted)
    qed
  qed
qed

lemma sort_file_keeps_skipped:
  assumes "files w p = None
     \<or> (\<exists>df. files w p = Some df
           \<and> (guess_date_col parse df = None \<or> guess_date_col parse df = Some []))"
  shows "files (sort_file parse na q w) p = files w p"
proof (cases rule: sort_file_cases[of w q parse na])
  case missing
  then show ?thesis by (simp add: print_def)
next
  case (no_column df)
  then show ?thesis by (simp add: print_def)
next
  case (sorted df col out)
  have "q \<noteq> p"
  proof
    assume "q = p"
    with sorted(1,2,3) assms show False by auto
  qed
  then show ?thesis using sorted(4) by (simp add: print_def to_csv_def)
qed

lemma fold_sort_file_keeps_skipped:
  "files w p = None
     \<or> (\<exists>df. files w p = Some df
           \<and> (guess_date_col parse df = None \<or> guess_date_col parse df = Some []))
   \<Longrightarrow> files (fold (sort_file parse na) qs w) p = files w p"
proof (induction qs arbitrary: w)
  case Nil show ?case by simp
next
  case (Cons q qs)
  have k: "files (sort_file parse na q w) p = files w p"
    using Cons.prems by (rule sort_file_keeps_skipped)
  have "files (fold (sort_file parse na) qs (sort_file parse na q w)) p = files (sort_file parse na q w) p"
    by (rule Cons.IH) (use Cons.prems k in simp)
  with k show ?case by simp
qed

lemma sort_file_stdout:
  "\<exists>m. stdout (sort_file parse na q w) = stdout w @ [m] \<and> message_file m = q
     \<and> (files w q = None \<longrightarrow> m = Skip_not_found q)
     \<and> (\<forall>df. files w q = Some df
            \<and> (guess_date_col parse df = None \<or> guess_date_col parse df = Some [])
          \<longrightarrow> m = Skip_no_date_column q (columns df))"
proof (cases rule: sort_file_cases[of w q parse na])
  case missing
  then have "stdout (sort_file parse na q w) = stdout w @ [Skip_not_found q]
     \<and> message_file (Skip_not_found q) = q
     \<and> (files w q = None \<longrightarrow> Skip_not_found q = Skip_not_found q)
     \<and> (\<forall>df. files w q = Some df
            \<and> (guess_date_col parse df = None \<or> guess_date_col parse df = Some [])
          \<longrightarrow> Skip_not_found q = Skip_no_date_column q (columns df))"
    by (simp add: print_def)
  then show ?thesis by (rule exI)
next
  case (no_column df)
  then have "stdout (sort_file parse na q w) = stdout w @ [Skip_no_date_column q (columns df)]
     \<and> message_file (Skip_no_date_column q (columns df)) = q
     \<and> (files w q = None \<longrightarrow> Skip_no_date_column q (columns df) = Skip_not_found q)
     \<and> (\<forall>df'. files w q = Some df'
            \<and> (guess_date_col parse df' = None \<or> guess_date_col parse df' = Some [])
          \<longrightarrow> Skip_no_date_column q (columns df) = Skip_no_date_column q (columns df'))"
    by (simp add: print_def)
  then show ?thesis by (rule exI)
next
  case (sorted df col out)
  then have "stdout (sort_file parse na q w) = stdout w @ [Sorted_by q col]
     \<and> message_file (Sorted_by q col) = q
     \<and> (files w q = None \<longrightarrow> Sorted_by q col = Skip_not_found q)
     \<and> (\<forall>df'. files w q = Some df'
            \<and> (guess_date_col parse df' = None \<or> guess_date_col parse df' = Some [])
          \<longrightarrow> Sorted_by q col = Skip_no_date_column q (columns df'))"
    by (auto simp: print_def to_csv_def)
  then show ?thesis by (rule exI)
qed

lemma fold_sort_file_stdout:
  "\<exists>ms. stdout (fold (sort_file parse na) qs w) = stdout w @ ms \<and> map message_file ms = qs"
proof (induction qs arbitrary: w)
  case Nil show ?case by simp
next
  case (Cons q qs)
  from sort_file_stdout[of parse na q w] obtain m where
    m: "stdout (sort_file parse na q w) = stdout w @ [m]" "message_file m = q"
    by (elim exE conjE)
  from Cons.IH[of "sort_file parse na q w"] obtain ms where
    ms: "stdout (fold (sort_file parse na) qs (sort_file parse na q w)) = stdout (sort_file parse na q w) @ ms"
      "map message_file ms = qs" by (elim exE conjE)
  have r: "stdout (fold (sort_file parse na) (q # qs) w) = stdout w @ (m # ms)
      \<and> map message_file (m # ms) = q # qs"
    using m ms by simp
  show ?case by (rule exI, rule r)
qed

lemma fold_sort_file_skip_message:
  assumes "p \<in> set qs"
  shows "(files w p = None \<longrightarrow> Skip_not_found p \<in> set (stdout (fold (sort_file parse na) qs w)))
    \<and> (\<forall>df. files w p = Some df
            \<and> (guess_date_col parse df = None \<or> guess_date_col parse df = Some [])
          \<longrightarrow> Skip_no_date_column p (columns df) \<in> set (stdout (fold (sort_file parse na) qs w)))"
  using assms
proof (induction qs arbitrary: w)
  case Nil then show ?case by simp
next
  case (Cons q qs)
  let ?w = "sort_file parse na q w"
  from fold_sort_file_stdout[of parse na qs ?w] obtain ms where
    ms: "stdout (fold (sort_file parse na) qs ?w) = stdout ?w @ ms" by (elim exE conjE)
  from sort_file_stdout[of parse na q w] obtain m where
    m: "stdout ?w = stdout w @ [m]"
      "files w q = None \<longrightarrow> m = Skip_not_found q"
      "\<forall>df. files w q = Some df
            \<and> (guess_date_col parse df = None \<or> guess_date_col parse df = Some [])
          \<longrightarrow> m = Skip_no_date_column q (columns df)" by (elim exE conjE)
  have here: "m \<in> set (stdout (fold (sort_file parse na) (q # qs) w))"
    using m(1) ms by simp
  show ?case
  proof (cases "q = p")
    case True
    show ?thesis
    proof (intro conjI allI impI)
      assume "files w p = None"
      with m(2) True have "m = Skip_not_found p" by simp
      with here show "Skip_not_found p \<in> set (stdout (fold (sort_file parse na) (q # qs) w))"
        by simp
    next
      fix df
      assume "files w p = Some df
            \<and> (guess_date_col parse df = None \<or> guess_date_col parse df = Some [])"
      with m(3)[rule_format, of df] True have "m = Skip_no_date_column p (columns df)" by simp
      with here
      show "Skip_no_date_column p (columns df) \<in> set (stdout (fold (sort_file parse na) (q # qs) w))"
        by simp
    qed
  next
    case False
    with Cons.prems have in_qs: "p \<in> set qs" by simp
    note IH = Cons.IH[OF in_qs, of ?w]
    show ?thesis
    proof (intro conjI allI impI)
      assume a: "files w p = None"
      then have "files ?w p = None" using sort_file_keeps_skipped[of w p parse na q] by simp
      with IH show "Skip_not_found p \<in> set (stdout (fold (sort_file parse na) (q # qs) w))" by simp
    next
      fix df
      assume a: "files w p = Some df
            \<and> (guess_date_col parse df = None \<or> guess_date_col parse df = Some [])"
      then have "files ?w p = Some df" using sort_file_keeps_skipped[of w p parse na q] by auto
      with IH a
      show "Skip_no_date_column p (columns df) \<in> set (stdout (fold (sort_file parse na) (q # qs) w))"
        by auto
    qed
  qed
qed

text \<open>
  C7 (as amended). For every list of files given to the sorter, a file that does not
  exist stays absent and a file without a date-like column stays as it is, each with its
  line of diagnosis printed; every file of the list is processed, in the order of the
  list, whatever happened to the files before it; and the exit code is 0, whether the
  files were sorted or skipped.
\<close>

theorem sorter_skips_and_continues:
  "(files w p = None \<longrightarrow>
      files (snd (sorter_main parse na args w)) p = None
      \<and> (p \<in> set (FILES args) \<longrightarrow>
            Skip_not_found p \<in> set (stdout (snd (sorter_main parse na args w)))))
   \<and> (files w p = Some df
        \<and> (guess_date_col parse df = None \<or> guess_date_col parse df = Some []) \<longrightarrow>
      files (snd (sorter_main parse na args w)) p = Some df
      \<and> (p \<in> set (FILES args) \<longrightarrow>
            Skip_no_date_column p (columns df) \<in> set (stdout (snd (sorter_main parse na args w)))))
   \<and> (\<exists>ms. stdout (snd (sorter_main parse na args w)) = stdout w @ ms
          \<and> map message_file ms = FILES args)
   \<and> fst (sorter_main parse na args w) = Returned
   \<and> exit_code (fst (sorter_main parse na args w)) = 0"
proof (intro conjI impI)
  let ?w' = "fold (sort_file parse na) (FILES args) w"
  have s: "snd (sorter_main parse na args w) = ?w'" by (simp add: sorter_main_def)
  {
    assume a: "files w p = None"
    then have "files ?w' p = files w p" by (intro fold_sort_file_keeps_skipped) simp
    with a show "files (snd (sorter_main parse na args w)) p = None" by (simp add: s)
    assume "p \<in> set (FILES args)"
    from fold_sort_file_skip_message[OF this, of w parse na] a
    show "Skip_not_found p \<in> set (stdout (snd (sorter_main parse na args w)))" by (simp add: s)
  }
  {
    assume a: "files w p = Some df
        \<and> (guess_date_col parse df = None \<or> guess_date_col parse df = Some [])"
    then have "files ?w' p = files w p" by (intro fold_sort_file_keeps_skipped) simp
    with a show "files (snd (sorter_main parse na args w)) p = Some df" by (simp add: s)
    assume "p \<in> set (FILES args)"
    from fold_sort_file_skip_message[OF this, of w parse na, THEN conjunct2, rule_format, OF a]
    show "Skip_no_date_column p (columns df) \<in> set (stdout (snd (sorter_main parse na args w)))"
      by (simp add: s)
  }
  show "\<exists>ms. stdout (snd (sorter_main parse na args w)) = stdout w @ ms
          \<and> map message_file ms = FILES args"
    unfolding s by (rule fold_sort_file_stdout)
  show "fst (sorter_main parse na args w) = Returned" by (simp add: sorter_main_def)
  then show "exit_code (fst (sorter_main parse na args w)) = 0" by (simp add: exit_code_def)
qed

text \<open>
  The sorter is run on "gone.csv", which does not exist, on "notes.csv", which has no
  date, and on the example file: the first two are skipped with their lines, the second
  is as it was, and the run returns.
\<close>

theorem sorter_skips_and_continues_witness:
  "files (snd (sorter_main first_layout None [''gone.csv'', ''notes.csv'', ''data/powerball.csv'']
       example_world)) ''gone.csv'' = None
   \<and> Skip_not_found ''gone.csv''
       \<in> set (stdout (snd (sorter_main first_layout None
            [''gone.csv'', ''notes.csv'', ''data/powerball.csv''] example_world)))
   \<and> files (snd (sorter_main first_layout None [''gone.csv'', ''notes.csv'', ''data/powerball.csv'']
       example_world)) ''notes.csv'' = Some text_frame
   \<and> Skip_no_date_column ''notes.csv'' [''Game'', ''Note'']
       \<in> set (stdout (snd (sorter_main first_layout None
            [''gone.csv'', ''notes.csv'', ''data/powerball.csv''] example_world)))
   \<and> fst (sorter_main first_layout None [''gone.csv'', ''notes.csv'', ''data/powerball.csv'']
       example_world) = Returned"
proof -
  let ?P = "first_layout"
  let ?args = "[''gone.csv'', ''notes.csv'', ''data/powerball.csv'']"
  have 1: "files example_world ''gone.csv'' = None" by (simp add: example_world_def)
  have 2: "files example_world ''notes.csv'' = Some text_frame
      \<and> (guess_date_col ?P text_frame = None \<or> guess_date_col ?P text_frame = Some [])"
  proof
    show "files example_world ''notes.csv'' = Some text_frame" by (simp add: example_world_def)
    have "guess_date_col ?P text_frame = None" by code_simp
    then show "guess_date_col ?P text_frame = None \<or> guess_date_col ?P text_frame = Some []" ..
  qed
  have 3: "''gone.csv'' \<in> set (FILES ?args)" "''notes.csv'' \<in> set (FILES ?args)"
    by (simp_all add: FILES_def)
  have 4: "columns text_frame = [''Game'', ''Note'']" by (simp add: text_frame_def)
  note t1 = sorter_skips_and_continues[where w = example_world and p = "''gone.csv''"
      and parse = ?P and na = None and args = ?args]
  note t2 = sorter_skips_and_continues[where w = example_world and p = "''notes.csv''"
      and parse = ?P and na = None and args = ?args and df = text_frame]
  note a = t1[THEN conjunct1, rule_format, OF 1]
  note b = t2[THEN conjunct2, THEN conjunct1, rule_format, OF 2]
  note c = t1[THEN conjunct2, THEN conjunct2, THEN conjunct2, THEN conjunct1]
  show ?thesis
    using a[THEN conjunct1] a[THEN conjunct2, rule_format, OF 3(1)]
      b[THEN conjunct1] b[THEN conjunct2, rule_format, OF 3(2), unfolded 4] c
    by (intro conjI)
qed

text \<open>
  C7 as stated fails in its last part. A run whose only file is skipped and a run whose
  only file is sorted end with the same exit code, 0: the exit code does not tell what
  happened to the last file.
\<close>

theorem sorter_exit_code_counterexample:
  "stdout (snd (sorter_main first_layout None [''gone.csv''] example_world))
     = [Skip_not_found ''gone.csv'']
   \<and> exit_code (fst (sorter_main first_layout None [''gone.csv''] example_world)) = 0
   \<and> stdout (snd (sorter_main first_layout None [''data/powerball.csv''] example_world))
     = [Sorted_by ''data/powerball.csv'' ''Draw Date'']
   \<and> exit_code (fst (sorter_main first_layout None [''data/powerball.csv''] example_world)) = 0"
  by code_simp

end
